theory Spec2Isabelle
  imports Complex_Main
begin

section \<open>Dense arrays\<close>

text \<open>
  A numpy array of float64 is its shape and its elements in row-major order. The
  elements are only created as zero and copied, never computed with, so they are
  taken as real numbers.
\<close>

record ndarray =
  shape :: "nat list"
  data :: "real list"

definition wf_ndarray :: "ndarray \<Rightarrow> bool" where
  "wf_ndarray a = (length (data a) = prod_list (shape a))"

text \<open>The exceptions that can reach the caller; \<open>Other\<close> is any exception class.\<close>

datatype exn = AttributeError | IndexError | ValueError | Other string

text \<open>\<^verbatim>\<open>np.size(a)\<close>: the number of elements.\<close>

definition np_size :: "ndarray \<Rightarrow> nat" where
  "np_size a = prod_list (shape a)"

text \<open>
  \<^verbatim>\<open>np.zeros(dims)\<close>: numpy refuses a negative dimension with
  \<^verbatim>\<open>ValueError: negative dimensions are not allowed\<close>.
\<close>

definition np_zeros :: "int list \<Rightarrow> exn + ndarray" where
  "np_zeros dims =
     (if \<exists>d \<in> set dims. d < 0 then Inl ValueError
      else Inr \<lparr>shape = map nat dims, data = replicate (prod_list (map nat dims)) 0\<rparr>)"

subsection \<open>Assignment to one step slot\<close>

text \<open>
  \<^verbatim>\<open>a[index, :, :, :] = v\<close> broadcasts \<open>v\<close> to the shape of the slot. The shape of
  \<open>v\<close> is first brought to the slot's number of axes: unit axes are added on the left,
  or stripped from the left when \<open>v\<close> has more axes than the slot.
\<close>

fun strip_ones :: "nat \<Rightarrow> nat list \<Rightarrow> nat list" where
  "strip_ones (Suc k) (d # ds) = (if d = 1 then strip_ones k ds else d # ds)"
| "strip_ones _ ds = ds"

definition align_shape :: "nat list \<Rightarrow> nat \<Rightarrow> nat list" where
  "align_shape s n =
     (if length s \<le> n then replicate (n - length s) 1 @ s
      else strip_ones (length s - n) s)"

fun broadcastable :: "nat list \<Rightarrow> nat list \<Rightarrow> bool" where
  "broadcastable [] [] = True"
| "broadcastable (d # ds) (e # es) = ((d = e \<or> d = 1) \<and> broadcastable ds es)"
| "broadcastable _ _ = False"

definition chunk :: "nat \<Rightarrow> nat \<Rightarrow> 'a list \<Rightarrow> 'a list" where
  "chunk sz i xs = take sz (drop (i * sz) xs)"

fun bcast_data :: "nat list \<Rightarrow> nat list \<Rightarrow> real list \<Rightarrow> real list" where
  "bcast_data (d # ds) (e # es) xs =
     (if d = e
      then concat (map (\<lambda>i. bcast_data ds es (chunk (prod_list ds) i xs)) [0..<e])
      else concat (replicate e (bcast_data ds es xs)))"
| "bcast_data _ _ xs = xs"

text \<open>
  The index is checked against the first axis before the value is looked at, so an
  index out of bounds is an \<open>IndexError\<close> whatever the value; a value that cannot be
  broadcast is a \<open>ValueError\<close>.
\<close>

definition put_slot :: "ndarray \<Rightarrow> nat \<Rightarrow> real list \<Rightarrow> ndarray" where
  "put_slot a index vs =
     (let sz = prod_list (tl (shape a))
      in a\<lparr>data := take (index * sz) (data a) @ vs @ drop (Suc index * sz) (data a)\<rparr>)"

definition setitem :: "ndarray \<Rightarrow> nat \<Rightarrow> ndarray \<Rightarrow> exn + ndarray" where
  "setitem a index v =
     (case shape a of
        [] \<Rightarrow> Inl IndexError
      | n # slot \<Rightarrow>
          if index \<ge> n then Inl IndexError
          else if \<not> broadcastable (align_shape (shape v) (length slot)) slot
          then Inl ValueError
          else Inr (put_slot a index
                 (bcast_data (align_shape (shape v) (length slot)) slot (data v))))"

text \<open>Reading \<^verbatim>\<open>a[index]\<close> back: the elements of one step slot.\<close>

definition step_slot :: "ndarray \<Rightarrow> nat \<Rightarrow> real list" where
  "step_slot a index = chunk (prod_list (tl (shape a))) index (data a)"

section \<open>The sampler\<close>

text \<open>
  A Step Result carries the attributes \<^verbatim>\<open>x\<close>, \<^verbatim>\<open>logl\<close> and \<^verbatim>\<open>logP\<close>, arrays of
  float64.
\<close>

record step_result =
  res_x :: ndarray
  res_logl :: ndarray
  res_logP :: ndarray

text \<open>
  The iterator that \<^verbatim>\<open>sampler.sample\<close> returns: each pull ends the sequence, raises, or
  yields a result and the rest of the sequence. The sequence may be infinite.
\<close>

codatatype gen = StopIteration | Raise exn | Yield step_result gen

text \<open>
  The attributes of the sampler that \<^verbatim>\<open>run_mcmc\<close> can meet. \<open>betas\<close> is \<open>None\<close> for an
  object without that attribute. \<open>ntemps_attr\<close> is the ladder size the sampler itself
  declares. \<open>nwalkers\<close> and \<open>ndim\<close> are counts. \<open>sample\<close> takes the position and the
  value of \<^verbatim>\<open>thin_by\<close>; the call itself may raise.
\<close>

record sampler =
  betas :: "ndarray option"
  ntemps_attr :: nat
  nwalkers :: nat
  ndim :: nat
  sample :: "ndarray \<Rightarrow> int \<Rightarrow> exn + gen"

section \<open>Effects\<close>

text \<open>
  What \<^verbatim>\<open>run_mcmc\<close> does to the world outside its own variables, in order: the progress
  bar is opened, advanced and closed, the sampler is asked for its sequence, the
  sequence is pulled, and a step slot of an output array is assigned.
\<close>

datatype target = Chain | Logl | Logpi

datatype event =
    TqdmOpen int
  | SampleCall ndarray int
  | Next
  | SetItem target nat
  | PbarUpdate nat
  | PbarClose

type_synonym arrays = "ndarray \<times> ndarray \<times> ndarray"

type_synonym outcome = "(exn + arrays) \<times> event list"

section \<open>run_mcmc\<close>

text \<open>The three assignments of the loop body, at the current index.\<close>

definition store_step :: "arrays \<Rightarrow> nat \<Rightarrow> step_result \<Rightarrow> event list \<Rightarrow> outcome" where
  "store_step A index result tr =
     (case A of (chain, logl, logpi) \<Rightarrow>
        (case setitem chain index (res_x result) of
           Inl e \<Rightarrow> (Inl e, tr)
         | Inr chain' \<Rightarrow>
             (case setitem logl index (res_logl result) of
                Inl e \<Rightarrow> (Inl e, tr @ [SetItem Chain index])
              | Inr logl' \<Rightarrow>
                  (case setitem logpi index (res_logP result) of
                     Inl e \<Rightarrow> (Inl e, tr @ [SetItem Chain index, SetItem Logl index])
                   | Inr logpi' \<Rightarrow>
                       (Inr (chain', logl', logpi'),
                        tr @ [SetItem Chain index, SetItem Logl index,
                              SetItem Logpi index])))))"

text \<open>
  The \<^verbatim>\<open>for\<close> loop: pull, store, count, report, and leave once the index has reached
  \<open>nsteps\<close>. The test stands after the body.
\<close>

function loop :: "gen \<Rightarrow> int \<Rightarrow> nat \<Rightarrow> arrays \<Rightarrow> event list \<Rightarrow> outcome" where
  "loop g nsteps index A tr =
     (case g of
        StopIteration \<Rightarrow> (Inr A, tr @ [Next])
      | Raise e \<Rightarrow> (Inl e, tr @ [Next])
      | Yield result g' \<Rightarrow>
          (case store_step A index result (tr @ [Next]) of
             (Inl e, tr') \<Rightarrow> (Inl e, tr')
           | (Inr A', tr') \<Rightarrow>
               if int (index + 1) \<ge> nsteps then (Inr A', tr' @ [PbarUpdate 1])
               else loop g' nsteps (index + 1) A' (tr' @ [PbarUpdate 1])))"
  by pat_completeness auto
termination
  by (relation "measure (\<lambda>(g, nsteps, index, A, tr). nat (nsteps - int index))") auto

declare loop.simps [simp del]

definition run_mcmc :: "sampler \<Rightarrow> ndarray \<Rightarrow> int \<Rightarrow> int \<Rightarrow> outcome" where
  "run_mcmc s p0 nsteps thin =
     (case betas s of
        None \<Rightarrow> (Inl AttributeError, [])
      | Some b \<Rightarrow>
          (case np_zeros [nsteps, int (np_size b), int (nwalkers s), int (ndim s)] of
             Inl e \<Rightarrow> (Inl e, [])
           | Inr chain \<Rightarrow>
               (case np_zeros [nsteps, int (np_size b), int (nwalkers s)] of
                  Inl e \<Rightarrow> (Inl e, [TqdmOpen nsteps])
                | Inr logl \<Rightarrow>
                    (case np_zeros [nsteps, int (np_size b), int (nwalkers s)] of
                       Inl e \<Rightarrow> (Inl e, [TqdmOpen nsteps])
                     | Inr logpi \<Rightarrow>
                         (case sample s p0 thin of
                            Inl e \<Rightarrow> (Inl e, [TqdmOpen nsteps, SampleCall p0 thin])
                          | Inr g \<Rightarrow>
                              (case loop g nsteps 0 (chain, logl, logpi)
                                      [TqdmOpen nsteps, SampleCall p0 thin] of
                                 (Inl e, tr) \<Rightarrow> (Inl e, tr)
                               | (Inr A, tr) \<Rightarrow> (Inr A, tr @ [PbarClose])))))))"

section \<open>Vocabulary of the properties\<close>

text \<open>
  A Step Result of a sampler with \<open>nt\<close> temperatures, \<open>nw\<close> walkers and \<open>nd\<close> parameters:
  one parameter vector, one log-likelihood and one log-prior for every pair of a
  temperature and a walker.
\<close>

definition well_shaped :: "nat \<Rightarrow> nat \<Rightarrow> nat \<Rightarrow> step_result \<Rightarrow> bool" where
  "well_shaped nt nw nd r =
     (shape (res_x r) = [nt, nw, nd] \<and> wf_ndarray (res_x r) \<and>
      shape (res_logl r) = [nt, nw] \<and> wf_ndarray (res_logl r) \<and>
      shape (res_logP r) = [nt, nw] \<and> wf_ndarray (res_logP r))"

text \<open>The sequence that yields the results \<open>rs\<close> in order and then goes on as \<open>rest\<close>.\<close>

fun yields :: "step_result list \<Rightarrow> gen \<Rightarrow> gen" where
  "yields [] rest = rest"
| "yields (r # rs) rest = Yield r (yields rs rest)"

text \<open>The events of one full pass through the loop body, and of \<open>k\<close> passes in a row.\<close>

definition step_events :: "nat \<Rightarrow> event list" where
  "step_events index =
     [Next, SetItem Chain index, SetItem Logl index, SetItem Logpi index, PbarUpdate 1]"

fun steps_events :: "nat \<Rightarrow> nat \<Rightarrow> event list" where
  "steps_events index 0 = []"
| "steps_events index (Suc k) = step_events index @ steps_events (Suc index) k"

fun is_sample_call :: "event \<Rightarrow> bool" where
  "is_sample_call (SampleCall p t) = True"
| "is_sample_call _ = False"

fun is_loop_event :: "event \<Rightarrow> bool" where
  "is_loop_event Next = True"
| "is_loop_event (SetItem t i) = True"
| "is_loop_event (PbarUpdate k) = True"
| "is_loop_event _ = False"

text \<open>The events of a loop body that an assignment cut short.\<close>

definition body_events :: "nat \<Rightarrow> event list \<Rightarrow> bool" where
  "body_events index evs =
     (evs = [] \<or> evs = [SetItem Chain index] \<or>
      evs = [SetItem Chain index, SetItem Logl index])"

subsection \<open>The state of the three arrays\<close>

definition shapes :: "arrays \<Rightarrow> nat list \<times> nat list \<times> nat list" where
  "shapes A = (case A of (c, l, p) \<Rightarrow> (shape c, shape l, shape p))"

definition arrays_ok :: "nat \<Rightarrow> nat \<Rightarrow> nat \<Rightarrow> nat \<Rightarrow> arrays \<Rightarrow> bool" where
  "arrays_ok n nt nw nd A =
     (case A of (c, l, p) \<Rightarrow>
        shape c = [n, nt, nw, nd] \<and> wf_ndarray c \<and>
        shape l = [n, nt, nw] \<and> wf_ndarray l \<and>
        shape p = [n, nt, nw] \<and> wf_ndarray p)"

text \<open>The arrays as \<^verbatim>\<open>run_mcmc\<close> allocates them.\<close>

definition zeros3 :: "nat \<Rightarrow> nat \<Rightarrow> nat \<Rightarrow> nat \<Rightarrow> arrays" where
  "zeros3 n nt nw nd =
     (\<lparr>shape = [n, nt, nw, nd], data = replicate (prod_list [n, nt, nw, nd]) 0\<rparr>,
      \<lparr>shape = [n, nt, nw], data = replicate (prod_list [n, nt, nw]) 0\<rparr>,
      \<lparr>shape = [n, nt, nw], data = replicate (prod_list [n, nt, nw]) 0\<rparr>)"

text \<open>What storing one well-shaped result, and a list of them, makes of the arrays.\<close>

definition store1 :: "arrays \<Rightarrow> nat \<Rightarrow> step_result \<Rightarrow> arrays" where
  "store1 A index r =
     (case A of (c, l, p) \<Rightarrow>
        (put_slot c index (data (res_x r)),
         put_slot l index (data (res_logl r)),
         put_slot p index (data (res_logP r))))"

fun store_all :: "arrays \<Rightarrow> nat \<Rightarrow> step_result list \<Rightarrow> arrays" where
  "store_all A index [] = A"
| "store_all A index (r # rs) = store_all (store1 A index r) (Suc index) rs"

subsection \<open>Sample inputs\<close>

text \<open>
  A ladder of two temperatures, one walker, two parameters; results whose entries count
  up from \<open>v\<close>; a sampler that hands out a given sequence whatever it is asked.
\<close>

definition betas_ex :: ndarray where
  "betas_ex = \<lparr>shape = [2], data = [1, 1 / 2]\<rparr>"

definition mk_result :: "real \<Rightarrow> step_result" where
  "mk_result v =
     \<lparr>res_x = \<lparr>shape = [2, 1, 2], data = [v, v + 1, v + 2, v + 3]\<rparr>,
      res_logl = \<lparr>shape = [2, 1], data = [- v, - v - 1]\<rparr>,
      res_logP = \<lparr>shape = [2, 1], data = [10 * v, 10 * v + 1]\<rparr>\<rparr>"

definition stub :: "gen \<Rightarrow> sampler" where
  "stub g =
     \<lparr>betas = Some betas_ex, ntemps_attr = 7, nwalkers = 1, ndim = 2,
      sample = (\<lambda>p0 thin. Inr g)\<rparr>"

definition p0_ex :: ndarray where
  "p0_ex = \<lparr>shape = [1, 2], data = [0, 0]\<rparr>"

definition p0_bad :: ndarray where
  "p0_bad = \<lparr>shape = [5], data = [0, 0, 0, 0, 0]\<rparr>"

definition ex_two :: gen where
  "ex_two = yields [mk_result 1, mk_result 5] StopIteration"

definition ex_faulty :: gen where
  "ex_faulty = yields [mk_result 1] (Raise (Other ''boom''))"

text \<open>A sampler that answers only when it is given \<open>p0_ex\<close> and a thinning of \<open>4\<close>.\<close>

definition picky :: sampler where
  "picky =
     \<lparr>betas = Some betas_ex, ntemps_attr = 2, nwalkers = 1, ndim = 2,
      sample = (\<lambda>p0 thin. if p0 = p0_ex \<and> thin = 4 then Inr ex_two
                            else Inl (Other ''unexpected arguments''))\<rparr>"

text \<open>A sequence that never ends.\<close>

primcorec count_from :: "real \<Rightarrow> gen" where
  "count_from v = Yield (mk_result v) (count_from (v + 1))"

definition ex_chain :: ndarray where
  "ex_chain = \<lparr>shape = [3, 2, 1, 2], data = [1, 2, 3, 4, 5, 6, 7, 8, 0, 0, 0, 0]\<rparr>"

definition ex_logl :: ndarray where
  "ex_logl = \<lparr>shape = [3, 2, 1], data = [- 1, - 2, - 5, - 6, 0, 0]\<rparr>"

definition ex_logpi :: ndarray where
  "ex_logpi = \<lparr>shape = [3, 2, 1], data = [10, 11, 50, 51, 0, 0]\<rparr>"


section \<open>Lemmas\<close>

subsection \<open>Assignment of a value that has the slot's own shape\<close>

text \<open>
  A value whose shape is the slot's is stored as it is: nothing is added to its
  shape, every axis agrees, and the broadcast copies the elements one for one.
\<close>

lemma align_shape_same: "align_shape s (length s) = s"
  by (simp add: align_shape_def)

lemma broadcastable_refl: "broadcastable s s"
  by (induction s) auto

lemma concat_chunks_take:
  "n * sz \<le> length xs \<Longrightarrow> concat (map (\<lambda>i. chunk sz i xs) [0..<n]) = take (n * sz) xs"
proof (induction n)
  case 0
  then show ?case by simp
next
  case (Suc n)
  then have "n * sz \<le> length xs" by simp
  with Suc.IH have "concat (map (\<lambda>i. chunk sz i xs) [0..<n]) = take (n * sz) xs" by simp
  then have "concat (map (\<lambda>i. chunk sz i xs) [0..<Suc n]) = take (n * sz) xs @ take sz (drop (n * sz) xs)"
    by (simp add: chunk_def)
  also have "\<dots> = take (n * sz + sz) xs"
    by (simp add: take_add)
  finally show ?case by (simp add: add.commute)
qed

lemma length_chunk: "Suc i * sz \<le> length xs \<Longrightarrow> length (chunk sz i xs) = sz"
  by (simp add: chunk_def)

lemma bcast_data_same: "length xs = prod_list s \<Longrightarrow> bcast_data s s xs = xs"
proof (induction s arbitrary: xs)
  case Nil
  then show ?case by simp
next
  case (Cons d ds)
  have each: "bcast_data ds ds (chunk (prod_list ds) i xs) = chunk (prod_list ds) i xs"
    if "i < d" for i
  proof -
    from that have "Suc i * prod_list ds \<le> d * prod_list ds"
      by (intro mult_le_mono1) simp
    with Cons.prems have "length (chunk (prod_list ds) i xs) = prod_list ds"
      by (simp add: length_chunk)
    then show ?thesis by (rule Cons.IH)
  qed
  have "bcast_data (d # ds) (d # ds) xs
          = concat (map (\<lambda>i. bcast_data ds ds (chunk (prod_list ds) i xs)) [0..<d])"
    by simp
  also have "\<dots> = concat (map (\<lambda>i. chunk (prod_list ds) i xs) [0..<d])"
    using each by (auto intro!: arg_cong [where f = concat])
  also have "\<dots> = take (d * prod_list ds) xs"
    using Cons.prems by (intro concat_chunks_take) simp
  also have "\<dots> = xs" using Cons.prems by simp
  finally show ?case .
qed

lemma setitem_exact:
  assumes "shape a = n # slot" "index < n" "shape v = slot" "wf_ndarray v"
  shows "setitem a index v = Inr (put_slot a index (data v))"
  using assms
  by (simp add: setitem_def align_shape_same broadcastable_refl bcast_data_same wf_ndarray_def)

lemma setitem_shape: "setitem a index v = Inr a' \<Longrightarrow> shape a' = shape a"
  by (auto simp: setitem_def put_slot_def Let_def split: list.splits if_splits)

lemma setitem_empty: "shape a = 0 # slot \<Longrightarrow> setitem a index v = Inl IndexError"
  by (simp add: setitem_def)

lemma shape_put_slot [simp]: "shape (put_slot a index vs) = shape a"
  by (simp add: put_slot_def Let_def)

lemma wf_put_slot:
  assumes "wf_ndarray a" "shape a = n # slot" "index < n" "length vs = prod_list slot"
  shows "wf_ndarray (put_slot a index vs)"
proof -
  have "Suc index * prod_list slot \<le> n * prod_list slot"
    using assms(3) by (intro mult_le_mono1) simp
  then show ?thesis
    using assms by (simp add: wf_ndarray_def put_slot_def Let_def min_def)
qed

lemma step_slot_put_slot:
  assumes "wf_ndarray a" "shape a = n # slot" "index < n" "length vs = prod_list slot" "j < n"
  shows "step_slot (put_slot a index vs) j = (if j = index then vs else step_slot a j)"
proof -
  define sz where "sz = prod_list slot"
  have len: "length (data a) = n * sz" using assms by (simp add: wf_ndarray_def sz_def)
  have le: "Suc index * sz \<le> n * sz" using assms(3) by (intro mult_le_mono1) simp
  have lt: "length (take (index * sz) (data a)) = index * sz" using len le by simp
  consider "j = index" | "j < index" | "index < j" by linarith
  then show ?thesis
  proof cases
    case 1
    then show ?thesis
      using assms lt by (simp add: step_slot_def put_slot_def chunk_def sz_def [symmetric])
  next
    case 2
    then have "Suc j * sz \<le> index * sz" by (intro mult_le_mono1) simp
    then show ?thesis
      using assms 2 lt len le
      by (simp add: step_slot_def put_slot_def chunk_def sz_def [symmetric] take_drop min_def)
  next
    case 3
    then have "Suc index * sz \<le> j * sz" by (intro mult_le_mono1) simp
    then show ?thesis
      using assms 3 lt len le
      by (simp add: step_slot_def put_slot_def chunk_def sz_def [symmetric])
  qed
qed

subsection \<open>Allocation\<close>

lemma np_zeros_nat: "np_zeros (map int dims) = Inr \<lparr>shape = dims, data = replicate (prod_list dims) 0\<rparr>"
  by (simp add: np_zeros_def comp_def)

lemma step_slot_zeros:
  assumes "j < n"
  shows "step_slot \<lparr>shape = n # slot, data = replicate (prod_list (n # slot)) 0\<rparr> j
           = replicate (prod_list slot) 0"
proof -
  from assms have "Suc j * prod_list slot \<le> n * prod_list slot"
    by (intro mult_le_mono1) simp
  then have "prod_list slot \<le> n * prod_list slot - j * prod_list slot" by simp
  then show ?thesis by (simp add: step_slot_def chunk_def min_def)
qed

lemma arrays_ok_zeros3: "arrays_ok n nt nw nd (zeros3 n nt nw nd)"
  by (simp add: arrays_ok_def zeros3_def wf_ndarray_def)

subsection \<open>One pass through the loop body\<close>

lemma store_step_ok:
  assumes "arrays_ok n nt nw nd A" "index < n" "well_shaped nt nw nd r"
  shows "store_step A index r tr =
           (Inr (store1 A index r),
            tr @ [SetItem Chain index, SetItem Logl index, SetItem Logpi index])"
proof -
  obtain c l p where A: "A = (c, l, p)" by (cases A) auto
  from assms A have
    "setitem c index (res_x r) = Inr (put_slot c index (data (res_x r)))"
    "setitem l index (res_logl r) = Inr (put_slot l index (data (res_logl r)))"
    "setitem p index (res_logP r) = Inr (put_slot p index (data (res_logP r)))"
    by (simp_all add: arrays_ok_def well_shaped_def setitem_exact)
  then show ?thesis by (simp add: A store_step_def store1_def)
qed

lemma arrays_ok_store1:
  assumes "arrays_ok n nt nw nd A" "index < n" "well_shaped nt nw nd r"
  shows "arrays_ok n nt nw nd (store1 A index r)"
proof -
  obtain c l p where A: "A = (c, l, p)" by (cases A) auto
  from assms A have
    "wf_ndarray (put_slot c index (data (res_x r)))"
    "wf_ndarray (put_slot l index (data (res_logl r)))"
    "wf_ndarray (put_slot p index (data (res_logP r)))"
    by (auto simp: arrays_ok_def well_shaped_def intro!: wf_put_slot)
      (simp_all add: wf_ndarray_def)
  with assms A show ?thesis
    by (simp add: arrays_ok_def store1_def)
qed

lemma store_step_Inr:
  assumes "store_step A index r tr = (Inr A', tr')"
  shows "shapes A' = shapes A"
    and "tr' = tr @ [SetItem Chain index, SetItem Logl index, SetItem Logpi index]"
  using assms
  by (auto simp: store_step_def shapes_def setitem_shape split: prod.splits sum.splits)

lemma store_step_Inl:
  assumes "store_step A index r tr = (Inl e, tr')"
  shows "\<exists>evs. tr' = tr @ evs \<and> body_events index evs"
  using assms
  by (auto simp: store_step_def body_events_def split: prod.splits sum.splits)

lemma store_step_fst:
  "fst (store_step A index r tr) = fst (store_step A index r tr')"
  by (auto simp: store_step_def split: prod.splits sum.splits)

lemma loop_Stop: "loop StopIteration nsteps index A tr = (Inr A, tr @ [Next])"
  by (simp add: loop.simps)

lemma loop_Raise: "loop (Raise e) nsteps index A tr = (Inl e, tr @ [Next])"
  by (simp add: loop.simps)

lemma loop_Yield_Inl:
  "store_step A index r (tr @ [Next]) = (Inl e, tr1) \<Longrightarrow>
   loop (Yield r g') nsteps index A tr = (Inl e, tr1)"
  by (simp add: loop.simps)

lemma loop_Yield_Inr:
  "store_step A index r (tr @ [Next]) = (Inr A1, tr1) \<Longrightarrow>
   loop (Yield r g') nsteps index A tr =
     (if nsteps \<le> int (index + 1) then (Inr A1, tr1 @ [PbarUpdate 1])
      else loop g' nsteps (index + 1) A1 (tr1 @ [PbarUpdate 1]))"
  by (simp add: loop.simps)

lemma loop_Yield:
  assumes "arrays_ok n nt nw nd A" "index < n" "well_shaped nt nw nd r"
  shows "loop (Yield r g) (int n) index A tr =
           (if n \<le> Suc index then (Inr (store1 A index r), tr @ step_events index)
            else loop g (int n) (Suc index) (store1 A index r) (tr @ step_events index))"
  by (subst loop.simps) (simp add: store_step_ok [OF assms] step_events_def)

lemma loop_zero_steps:
  assumes "arrays_ok 0 nt nw nd A"
  shows "loop (Yield r g) nsteps 0 A tr = (Inl IndexError, tr @ [Next])"
proof -
  obtain c l p where A: "A = (c, l, p)" by (cases A) auto
  with assms have "setitem c 0 (res_x r) = Inl IndexError"
    by (simp add: arrays_ok_def setitem_empty)
  then have "store_step A 0 r (tr @ [Next]) = (Inl IndexError, tr @ [Next])"
    by (simp add: A store_step_def)
  then show ?thesis by (rule loop_Yield_Inl)
qed

subsection \<open>The loop on any sequence\<close>

text \<open>
  These hold for every sequence, finite or not, and whatever its results look like.
  Each is proved along the loop's own recursion.
\<close>

lemma loop_shapes:
  "loop g nsteps index A tr = (Inr A', tr') \<Longrightarrow> shapes A' = shapes A"
proof (induction g nsteps index A tr rule: loop.induct)
  case (1 g nsteps index A tr)
  show ?case
  proof (cases g)
    case StopIteration
    with "1.prems" show ?thesis by (simp add: loop.simps)
  next
    case (Raise e)
    with "1.prems" show ?thesis by (simp add: loop.simps)
  next
    case (Yield r g')
    show ?thesis
    proof (cases "store_step A index r (tr @ [Next])")
      case (Pair res tr1)
      show ?thesis
      proof (cases res)
        case (Inl e)
        with Pair Yield "1.prems" show ?thesis by (simp add: loop.simps)
      next
        case (Inr A1)
        with Pair have st: "store_step A index r (tr @ [Next]) = (Inr A1, tr1)" by simp
        then have sh: "shapes A1 = shapes A" by (rule store_step_Inr)
        show ?thesis
        proof (cases "nsteps \<le> int (index + 1)")
          case True
          with st Yield "1.prems" sh show ?thesis by (simp add: loop.simps)
        next
          case False
          with st Yield "1.prems"
          have "loop g' nsteps (index + 1) A1 (tr1 @ [PbarUpdate 1]) = (Inr A', tr')"
            by (simp add: loop.simps)
          with "1.IH" [OF Yield st [symmetric] refl False] sh show ?thesis
            by simp
        qed
      qed
    qed
  qed
qed

lemma loop_events:
  "\<exists>evs. snd (loop g nsteps index A tr) = tr @ evs \<and> list_all is_loop_event evs"
proof (induction g nsteps index A tr rule: loop.induct)
  case (1 g nsteps index A tr)
  show ?case
  proof (cases g)
    case StopIteration
    then show ?thesis by (simp add: loop_Stop)
  next
    case (Raise e)
    then show ?thesis by (simp add: loop_Raise)
  next
    case (Yield r g')
    obtain res tr1 where st: "store_step A index r (tr @ [Next]) = (res, tr1)"
      by (cases "store_step A index r (tr @ [Next])") auto
    show ?thesis
    proof (cases res)
      case (Inl e)
      with st store_step_Inl obtain evs where "tr1 = (tr @ [Next]) @ evs" "body_events index evs"
        by blast
      then have "tr1 = tr @ Next # evs" "list_all is_loop_event (Next # evs)"
        by (auto simp: body_events_def)
      with Inl st Yield show ?thesis by (auto simp: loop_Yield_Inl)
    next
      case (Inr A1)
      with st have st': "store_step A index r (tr @ [Next]) = (Inr A1, tr1)" by simp
      then have tr1: "tr1 = (tr @ [Next]) @ [SetItem Chain index, SetItem Logl index, SetItem Logpi index]"
        by (rule store_step_Inr)
      show ?thesis
      proof (cases "nsteps \<le> int (index + 1)")
        case True
        with st' tr1 Yield show ?thesis by (simp add: loop_Yield_Inr)
      next
        case False
        from "1.IH" [OF Yield st' [symmetric] refl False]
        obtain evs where "snd (loop g' nsteps (index + 1) A1 (tr1 @ [PbarUpdate 1]))
            = (tr1 @ [PbarUpdate 1]) @ evs" "list_all is_loop_event evs"
          by blast
        with tr1 have "snd (loop g' nsteps (index + 1) A1 (tr1 @ [PbarUpdate 1]))
            = tr @ ([Next, SetItem Chain index, SetItem Logl index, SetItem Logpi index, PbarUpdate 1] @ evs)"
          "list_all is_loop_event ([Next, SetItem Chain index, SetItem Logl index, SetItem Logpi index, PbarUpdate 1] @ evs)"
          by simp_all
        with False st' Yield show ?thesis by (simp only: loop_Yield_Inr if_False) blast
      qed
    qed
  qed
qed

lemma loop_bounds:
  "int index < nsteps \<Longrightarrow>
   \<exists>evs. snd (loop g nsteps index A tr) = tr @ evs \<and>
     count_list evs Next \<le> nat (nsteps - int index) \<and>
     (\<forall>t i. SetItem t i \<in> set evs \<longrightarrow> int i < nsteps)"
proof (induction g nsteps index A tr rule: loop.induct)
  case (1 g nsteps index A tr)
  from "1.prems" have one: "1 \<le> nat (nsteps - int index)" by simp
  show ?case
  proof (cases g)
    case StopIteration
    with one show ?thesis by (simp add: loop_Stop)
  next
    case (Raise e)
    with one show ?thesis by (simp add: loop_Raise)
  next
    case (Yield r g')
    obtain res tr1 where st: "store_step A index r (tr @ [Next]) = (res, tr1)"
      by (cases "store_step A index r (tr @ [Next])") auto
    show ?thesis
    proof (cases res)
      case (Inl e)
      with st store_step_Inl obtain evs where "tr1 = (tr @ [Next]) @ evs" "body_events index evs"
        by blast
      with "1.prems" one have "tr1 = tr @ Next # evs"
        "count_list (Next # evs) Next \<le> nat (nsteps - int index)"
        "\<forall>t i. SetItem t i \<in> set (Next # evs) \<longrightarrow> int i < nsteps"
        by (auto simp: body_events_def)
      with Inl st Yield show ?thesis by (simp only: loop_Yield_Inl snd_conv) blast
    next
      case (Inr A1)
      with st have st': "store_step A index r (tr @ [Next]) = (Inr A1, tr1)" by simp
      then have tr1: "tr1 = (tr @ [Next]) @ [SetItem Chain index, SetItem Logl index, SetItem Logpi index]"
        by (rule store_step_Inr)
      let ?step = "[Next, SetItem Chain index, SetItem Logl index, SetItem Logpi index, PbarUpdate 1]"
      show ?thesis
      proof (cases "nsteps \<le> int (index + 1)")
        case True
        with st' tr1 Yield "1.prems" one show ?thesis by (simp add: loop_Yield_Inr)
      next
        case False
        then have lt: "int (index + 1) < nsteps" by simp
        from "1.IH" [OF Yield st' [symmetric] refl False lt]
        obtain evs where evs: "snd (loop g' nsteps (index + 1) A1 (tr1 @ [PbarUpdate 1]))
            = (tr1 @ [PbarUpdate 1]) @ evs"
            "count_list evs Next \<le> nat (nsteps - int (index + 1))"
            "\<forall>t i. SetItem t i \<in> set evs \<longrightarrow> int i < nsteps"
          by blast
        from evs(1) tr1 have a: "snd (loop g' nsteps (index + 1) A1 (tr1 @ [PbarUpdate 1]))
            = tr @ (?step @ evs)"
          by simp
        from evs(2) lt have b: "count_list (?step @ evs) Next \<le> nat (nsteps - int index)"
          by simp
        from evs(3) "1.prems" have c: "\<forall>t i. SetItem t i \<in> set (?step @ evs) \<longrightarrow> int i < nsteps"
          by auto
        from a b c False st' Yield show ?thesis by (simp only: loop_Yield_Inr if_False) blast
      qed
    qed
  qed
qed

lemma loop_fst: "fst (loop g nsteps index A tr) = fst (loop g nsteps index A tr')"
proof (induction g nsteps index A tr arbitrary: tr' rule: loop.induct)
  case (1 g nsteps index A tr)
  show ?case
  proof (cases g)
    case StopIteration
    then show ?thesis by (simp add: loop_Stop)
  next
    case (Raise e)
    then show ?thesis by (simp add: loop_Raise)
  next
    case (Yield r g')
    obtain res tr1 where st: "store_step A index r (tr @ [Next]) = (res, tr1)"
      by (cases "store_step A index r (tr @ [Next])") auto
    obtain res' tr1' where st2: "store_step A index r (tr' @ [Next]) = (res', tr1')"
      by (cases "store_step A index r (tr' @ [Next])") auto
    from store_step_fst [of A index r "tr @ [Next]" "tr' @ [Next]"] st st2
    have res: "res' = res" by simp
    show ?thesis
    proof (cases res)
      case (Inl e)
      with st st2 res Yield show ?thesis by (simp add: loop_Yield_Inl)
    next
      case (Inr A1)
      with st st2 res have st': "store_step A index r (tr @ [Next]) = (Inr A1, tr1)"
        and st2': "store_step A index r (tr' @ [Next]) = (Inr A1, tr1')" by simp_all
      show ?thesis
      proof (cases "nsteps \<le> int (index + 1)")
        case True
        with st' st2' Yield show ?thesis by (simp add: loop_Yield_Inr)
      next
        case False
        from "1.IH" [OF Yield st' [symmetric] refl False, of "tr1' @ [PbarUpdate 1]"]
        show ?thesis using False st' st2' Yield by (simp add: loop_Yield_Inr)
      qed
    qed
  qed
qed

subsection \<open>The loop on a sequence that starts with well-shaped results\<close>

lemma loop_yields_below:
  assumes "arrays_ok n nt nw nd A" "list_all (well_shaped nt nw nd) rs"
    "index + length rs < n"
  shows "loop (yields rs rest) (int n) index A tr =
           loop rest (int n) (index + length rs) (store_all A index rs)
             (tr @ steps_events index (length rs))"
  using assms
proof (induction rs arbitrary: index A tr)
  case Nil
  then show ?case by simp
next
  case (Cons r rs)
  from Cons.prems have ok: "arrays_ok n nt nw nd (store1 A index r)"
    by (intro arrays_ok_store1) simp_all
  from Cons.prems have
    "loop (yields (r # rs) rest) (int n) index A tr =
       loop (yields rs rest) (int n) (Suc index) (store1 A index r) (tr @ step_events index)"
    by (simp add: loop_Yield [where nt = nt and nw = nw and nd = nd])
  also have "\<dots> = loop rest (int n) (Suc index + length rs)
       (store_all (store1 A index r) (Suc index) rs)
       ((tr @ step_events index) @ steps_events (Suc index) (length rs))"
    using Cons.prems ok by (intro Cons.IH) simp_all
  finally show ?case by simp
qed

lemma loop_yields_full:
  assumes "arrays_ok n nt nw nd A" "list_all (well_shaped nt nw nd) rs"
    "rs \<noteq> []" "index + length rs = n"
  shows "loop (yields rs rest) (int n) index A tr =
           (Inr (store_all A index rs), tr @ steps_events index (length rs))"
  using assms
proof (induction rs arbitrary: index A tr)
  case Nil
  then show ?case by simp
next
  case (Cons r rs)
  show ?case
  proof (cases "rs = []")
    case True
    with Cons.prems show ?thesis
      by (simp add: loop_Yield [where nt = nt and nw = nw and nd = nd])
  next
    case False
    from Cons.prems have ok: "arrays_ok n nt nw nd (store1 A index r)"
      by (intro arrays_ok_store1) simp_all
    from False Cons.prems have "\<not> n \<le> Suc index" by (cases rs) auto
    with Cons.prems have
      "loop (yields (r # rs) rest) (int n) index A tr =
         loop (yields rs rest) (int n) (Suc index) (store1 A index r) (tr @ step_events index)"
      by (simp add: loop_Yield [where nt = nt and nw = nw and nd = nd])
    also have "\<dots> = (Inr (store_all (store1 A index r) (Suc index) rs),
         (tr @ step_events index) @ steps_events (Suc index) (length rs))"
      using Cons.prems ok False by (intro Cons.IH) simp_all
    finally show ?thesis by simp
  qed
qed

lemma arrays_ok_store_all:
  assumes "arrays_ok n nt nw nd A" "list_all (well_shaped nt nw nd) rs" "index + length rs \<le> n"
  shows "arrays_ok n nt nw nd (store_all A index rs)"
  using assms
proof (induction rs arbitrary: index A)
  case Nil
  then show ?case by simp
next
  case (Cons r rs)
  from Cons.prems have "arrays_ok n nt nw nd (store1 A index r)"
    by (intro arrays_ok_store1) simp_all
  with Cons.prems show ?case by (simp add: Cons.IH)
qed

lemma slots_store1:
  assumes "arrays_ok n nt nw nd (c, l, p)" "index < n" "well_shaped nt nw nd r" "j < n"
    "store1 (c, l, p) index r = (c', l', p')"
  shows "step_slot c' j = (if j = index then data (res_x r) else step_slot c j)"
    and "step_slot l' j = (if j = index then data (res_logl r) else step_slot l j)"
    and "step_slot p' j = (if j = index then data (res_logP r) else step_slot p j)"
proof -
  from assms(5) have eqs:
    "c' = put_slot c index (data (res_x r))"
    "l' = put_slot l index (data (res_logl r))"
    "p' = put_slot p index (data (res_logP r))"
    by (simp_all add: store1_def)
  from assms(1,3) have
    "wf_ndarray c" "shape c = n # [nt, nw, nd]" "length (data (res_x r)) = prod_list [nt, nw, nd]"
    by (simp_all add: arrays_ok_def well_shaped_def wf_ndarray_def)
  from step_slot_put_slot [OF this(1,2) assms(2) this(3) assms(4)]
  show "step_slot c' j = (if j = index then data (res_x r) else step_slot c j)"
    by (simp add: eqs)
  from assms(1,3) have
    "wf_ndarray l" "shape l = n # [nt, nw]" "length (data (res_logl r)) = prod_list [nt, nw]"
    by (simp_all add: arrays_ok_def well_shaped_def wf_ndarray_def)
  from step_slot_put_slot [OF this(1,2) assms(2) this(3) assms(4)]
  show "step_slot l' j = (if j = index then data (res_logl r) else step_slot l j)"
    by (simp add: eqs)
  from assms(1,3) have
    "wf_ndarray p" "shape p = n # [nt, nw]" "length (data (res_logP r)) = prod_list [nt, nw]"
    by (simp_all add: arrays_ok_def well_shaped_def wf_ndarray_def)
  from step_slot_put_slot [OF this(1,2) assms(2) this(3) assms(4)]
  show "step_slot p' j = (if j = index then data (res_logP r) else step_slot p j)"
    by (simp add: eqs)
qed

lemma slots_store_all:
  assumes "arrays_ok n nt nw nd (c, l, p)" "list_all (well_shaped nt nw nd) rs"
    "index + length rs \<le> n" "j < n" "store_all (c, l, p) index rs = (c', l', p')"
  shows "step_slot c' j =
           (if index \<le> j \<and> j < index + length rs then data (res_x (rs ! (j - index)))
            else step_slot c j) \<and>
         step_slot l' j =
           (if index \<le> j \<and> j < index + length rs then data (res_logl (rs ! (j - index)))
            else step_slot l j) \<and>
         step_slot p' j =
           (if index \<le> j \<and> j < index + length rs then data (res_logP (rs ! (j - index)))
            else step_slot p j)"
  using assms
proof (induction rs arbitrary: index c l p)
  case Nil
  then show ?case by auto
next
  case (Cons r rs)
  obtain c1 l1 p1 where s1: "store1 (c, l, p) index r = (c1, l1, p1)"
    by (cases "store1 (c, l, p) index r") auto
  from Cons.prems have idx: "index < n" and wr: "well_shaped nt nw nd r" by simp_all
  from arrays_ok_store1 [OF Cons.prems(1) idx wr] s1
  have ok1: "arrays_ok n nt nw nd (c1, l1, p1)" by simp
  note one = slots_store1 [OF Cons.prems(1) idx wr Cons.prems(4) s1]
  from Cons.prems s1 have "store_all (c1, l1, p1) (Suc index) rs = (c', l', p')" by simp
  from Cons.IH [OF ok1 _ _ Cons.prems(4) this] Cons.prems
  have IH: "step_slot c' j =
           (if Suc index \<le> j \<and> j < Suc index + length rs then data (res_x (rs ! (j - Suc index)))
            else step_slot c1 j) \<and>
         step_slot l' j =
           (if Suc index \<le> j \<and> j < Suc index + length rs then data (res_logl (rs ! (j - Suc index)))
            else step_slot l1 j) \<and>
         step_slot p' j =
           (if Suc index \<le> j \<and> j < Suc index + length rs then data (res_logP (rs ! (j - Suc index)))
            else step_slot p1 j)"
    by simp
  consider "j < index" | "j = index" | "index < j" by linarith
  then show ?case
  proof cases
    case 1
    with IH one show ?thesis by simp
  next
    case 2
    with IH one show ?thesis by simp
  next
    case 3
    then obtain m where m: "j - index = Suc m" "j - Suc index = m"
      by (cases "j - index") auto
    with 3 IH one show ?thesis by auto
  qed
qed

lemma slots_of_stored:
  assumes "list_all (well_shaped nt nw nd) rs" "length rs \<le> n"
    "store_all (zeros3 n nt nw nd) 0 rs = (c, l, p)"
  shows "i < length rs \<Longrightarrow>
           step_slot c i = data (res_x (rs ! i)) \<and>
           step_slot l i = data (res_logl (rs ! i)) \<and>
           step_slot p i = data (res_logP (rs ! i))"
    and "length rs \<le> i \<Longrightarrow> i < n \<Longrightarrow>
           step_slot c i = replicate (nt * nw * nd) 0 \<and>
           step_slot l i = replicate (nt * nw) 0 \<and>
           step_slot p i = replicate (nt * nw) 0"
proof -
  have ok: "arrays_ok n nt nw nd
     (\<lparr>shape = [n, nt, nw, nd], data = replicate (prod_list [n, nt, nw, nd]) 0\<rparr>,
      \<lparr>shape = [n, nt, nw], data = replicate (prod_list [n, nt, nw]) 0\<rparr>,
      \<lparr>shape = [n, nt, nw], data = replicate (prod_list [n, nt, nw]) 0\<rparr>)"
    using arrays_ok_zeros3 [of n nt nw nd] by (simp add: zeros3_def)
  have le: "0 + length rs \<le> n" using assms(2) by simp
  have st: "store_all
     (\<lparr>shape = [n, nt, nw, nd], data = replicate (prod_list [n, nt, nw, nd]) 0\<rparr>,
      \<lparr>shape = [n, nt, nw], data = replicate (prod_list [n, nt, nw]) 0\<rparr>,
      \<lparr>shape = [n, nt, nw], data = replicate (prod_list [n, nt, nw]) 0\<rparr>) 0 rs = (c, l, p)"
    using assms(3) by (simp add: zeros3_def)
  {
    assume i: "i < length rs"
    then have "i < n" using assms(2) by simp
    from slots_store_all [OF ok assms(1) le this st] i
    show "step_slot c i = data (res_x (rs ! i)) \<and>
           step_slot l i = data (res_logl (rs ! i)) \<and>
           step_slot p i = data (res_logP (rs ! i))"
      by simp
  next
    assume i: "length rs \<le> i" "i < n"
    have z: "step_slot \<lparr>shape = [n, nt, nw, nd], data = replicate (prod_list [n, nt, nw, nd]) 0\<rparr> i
               = replicate (nt * nw * nd) 0"
      "step_slot \<lparr>shape = [n, nt, nw], data = replicate (prod_list [n, nt, nw]) 0\<rparr> i
               = replicate (nt * nw) 0"
      using step_slot_zeros [OF i(2), of "[nt, nw, nd]"] step_slot_zeros [OF i(2), of "[nt, nw]"]
      by (simp_all add: mult.assoc)
    from slots_store_all [OF ok assms(1) le i(2) st] i z
    show "step_slot c i = replicate (nt * nw * nd) 0 \<and>
           step_slot l i = replicate (nt * nw) 0 \<and>
           step_slot p i = replicate (nt * nw) 0"
      by simp
  }
qed

subsection \<open>Events\<close>

lemma filter_loop_events: "list_all is_loop_event evs \<Longrightarrow> filter is_sample_call evs = []"
proof (induction evs)
  case Nil
  then show ?case by simp
next
  case (Cons e evs)
  then show ?case by (cases e) simp_all
qed

lemma loop_events_no_close: "list_all is_loop_event evs \<Longrightarrow> PbarClose \<notin> set evs"
  by (auto simp: list_all_iff)

lemma list_all_steps_events: "list_all is_loop_event (steps_events index k)"
  by (induction k arbitrary: index) (simp_all add: step_events_def)

subsection \<open>The function as a whole\<close>

lemma run_mcmc_unfold:
  assumes "betas s = Some b" "sample s p0 thin = Inr g"
  shows "run_mcmc s p0 (int n) thin =
     (case loop g (int n) 0 (zeros3 n (np_size b) (nwalkers s) (ndim s))
             [TqdmOpen (int n), SampleCall p0 thin] of
        (Inl e, tr) \<Rightarrow> (Inl e, tr)
      | (Inr A, tr) \<Rightarrow> (Inr A, tr @ [PbarClose]))"
proof -
  have "np_zeros [int n, int (np_size b), int (nwalkers s), int (ndim s)]
          = np_zeros (map int [n, np_size b, nwalkers s, ndim s])"
       "np_zeros [int n, int (np_size b), int (nwalkers s)]
          = np_zeros (map int [n, np_size b, nwalkers s])"
    by simp_all
  then show ?thesis
    unfolding run_mcmc_def zeros3_def np_zeros_nat using assms by simp
qed

lemma run_mcmc_no_betas: "betas s = None \<Longrightarrow> run_mcmc s p0 nsteps thin = (Inl AttributeError, [])"
  by (simp add: run_mcmc_def)

lemma run_mcmc_negative:
  "betas s = Some b \<Longrightarrow> nsteps < 0 \<Longrightarrow> run_mcmc s p0 nsteps thin = (Inl ValueError, [])"
  by (simp add: run_mcmc_def np_zeros_def)

lemma run_mcmc_loop:
  assumes "betas s = Some b" "0 \<le> nsteps" "sample s p0 thin = Inr g"
  shows "run_mcmc s p0 nsteps thin =
     (case loop g nsteps 0 (zeros3 (nat nsteps) (np_size b) (nwalkers s) (ndim s))
             [TqdmOpen nsteps, SampleCall p0 thin] of
        (Inl e, tr) \<Rightarrow> (Inl e, tr)
      | (Inr A, tr) \<Rightarrow> (Inr A, tr @ [PbarClose]))"
  using run_mcmc_unfold [OF assms(1,3), of "nat nsteps"] assms(2) by simp

lemma run_mcmc_sample_raises:
  assumes "betas s = Some b" "0 \<le> nsteps" "sample s p0 thin = Inl e"
  shows "run_mcmc s p0 nsteps thin = (Inl e, [TqdmOpen nsteps, SampleCall p0 thin])"
  using assms by (simp add: run_mcmc_def np_zeros_def)

lemma run_mcmc_returns:
  assumes "run_mcmc s p0 nsteps thin = (Inr A, tr)"
  obtains b g tr' where "betas s = Some b" "0 \<le> nsteps" "sample s p0 thin = Inr g"
    "loop g nsteps 0 (zeros3 (nat nsteps) (np_size b) (nwalkers s) (ndim s))
       [TqdmOpen nsteps, SampleCall p0 thin] = (Inr A, tr')"
    "tr = tr' @ [PbarClose]"
proof -
  from assms obtain b where b: "betas s = Some b"
    by (cases "betas s") (simp_all add: run_mcmc_no_betas)
  from assms b have n: "0 \<le> nsteps"
    by (cases "nsteps < 0") (simp_all add: run_mcmc_negative)
  from assms b n obtain g where g: "sample s p0 thin = Inr g"
    by (cases "sample s p0 thin") (simp_all add: run_mcmc_sample_raises)
  from assms have "\<exists>tr'. loop g nsteps 0 (zeros3 (nat nsteps) (np_size b) (nwalkers s) (ndim s))
       [TqdmOpen nsteps, SampleCall p0 thin] = (Inr A, tr') \<and> tr = tr' @ [PbarClose]"
    unfolding run_mcmc_loop [OF b n g]
    by (auto split: prod.splits sum.splits)
  with b n g that show thesis by blast
qed

lemma run_mcmc_cong:
  assumes "betas s' = betas s" "nwalkers s' = nwalkers s" "ndim s' = ndim s"
    "sample s' p0 thin = sample s p0 thin"
  shows "run_mcmc s' p0 nsteps thin = run_mcmc s p0 nsteps thin"
  unfolding run_mcmc_def assms by (rule refl)

lemma fst_close:
  "fst (case q of (Inl e, tr) \<Rightarrow> (Inl e, tr) | (Inr A, tr) \<Rightarrow> (Inr A, tr @ [PbarClose])) = fst q"
  by (auto split: prod.splits sum.splits)

lemma snd_close:
  "snd (case q of (Inl e, tr) \<Rightarrow> (Inl e, tr) | (Inr A, tr) \<Rightarrow> (Inr A, tr @ [PbarClose]))
     = snd q \<or>
   snd (case q of (Inl e, tr) \<Rightarrow> (Inl e, tr) | (Inr A, tr) \<Rightarrow> (Inr A, tr @ [PbarClose]))
     = snd q @ [PbarClose]"
  by (auto split: prod.splits sum.splits)

lemma run_mcmc_fst_args:
  assumes "sample s p0' thin' = sample s p0 thin"
  shows "fst (run_mcmc s p0' nsteps thin') = fst (run_mcmc s p0 nsteps thin)"
proof (cases "betas s")
  case None
  then show ?thesis by (simp add: run_mcmc_no_betas)
next
  case (Some b)
  show ?thesis
  proof (cases "nsteps < 0")
    case True
    with Some show ?thesis by (simp add: run_mcmc_negative)
  next
    case False
    then have n: "0 \<le> nsteps" by simp
    show ?thesis
    proof (cases "sample s p0 thin")
      case (Inl e)
      with assms have "sample s p0' thin' = Inl e" by simp
      from run_mcmc_sample_raises [OF Some n this] run_mcmc_sample_raises [OF Some n Inl]
      show ?thesis by simp
    next
      case (Inr g)
      with assms have "sample s p0' thin' = Inr g" by simp
      from run_mcmc_loop [OF Some n this] run_mcmc_loop [OF Some n Inr]
      show ?thesis
        by (simp only: fst_close)
          (rule loop_fst)
    qed
  qed
qed

lemma run_trace:
  assumes "betas s = Some b" "0 \<le> nsteps" "sample s p0 thin = Inr g"
  shows "\<exists>evs. list_all is_loop_event evs \<and>
     (snd (run_mcmc s p0 nsteps thin) = [TqdmOpen nsteps, SampleCall p0 thin] @ evs \<or>
      snd (run_mcmc s p0 nsteps thin) = [TqdmOpen nsteps, SampleCall p0 thin] @ evs @ [PbarClose])"
proof -
  let ?l = "loop g nsteps 0 (zeros3 (nat nsteps) (np_size b) (nwalkers s) (ndim s))
             [TqdmOpen nsteps, SampleCall p0 thin]"
  obtain res tr' where l: "?l = (res, tr')" by (cases ?l) auto
  from loop_events [of g nsteps 0 "zeros3 (nat nsteps) (np_size b) (nwalkers s) (ndim s)"
      "[TqdmOpen nsteps, SampleCall p0 thin]"] l
  obtain evs where evs: "tr' = [TqdmOpen nsteps, SampleCall p0 thin] @ evs"
    "list_all is_loop_event evs" by auto
  have "snd (run_mcmc s p0 nsteps thin) = tr' \<or> snd (run_mcmc s p0 nsteps thin) = tr' @ [PbarClose]"
    unfolding run_mcmc_loop [OF assms] l by (cases res) simp_all
  with evs show ?thesis by auto
qed

lemma run_short:
  assumes "betas s = Some b" "sample s p0 thin = Inr (yields rs rest)"
    "list_all (well_shaped (np_size b) (nwalkers s) (ndim s)) rs" "int (length rs) < nsteps"
  shows "run_mcmc s p0 nsteps thin =
     (case loop rest nsteps (length rs)
             (store_all (zeros3 (nat nsteps) (np_size b) (nwalkers s) (ndim s)) 0 rs)
             ([TqdmOpen nsteps, SampleCall p0 thin] @ steps_events 0 (length rs)) of
        (Inl e, tr) \<Rightarrow> (Inl e, tr)
      | (Inr A, tr) \<Rightarrow> (Inr A, tr @ [PbarClose]))"
proof -
  from assms(4) have n: "0 \<le> nsteps" "int (nat nsteps) = nsteps" "0 + length rs < nat nsteps"
    by simp_all
  from loop_yields_below [OF arrays_ok_zeros3 assms(3) n(3), of rest
      "[TqdmOpen nsteps, SampleCall p0 thin]"]
  show ?thesis
    unfolding run_mcmc_loop [OF assms(1) n(1) assms(2)] n(2) by simp
qed

lemma run_short_stop:
  assumes "betas s = Some b" "sample s p0 thin = Inr (yields rs StopIteration)"
    "list_all (well_shaped (np_size b) (nwalkers s) (ndim s)) rs" "int (length rs) < nsteps"
  shows "run_mcmc s p0 nsteps thin =
     (Inr (store_all (zeros3 (nat nsteps) (np_size b) (nwalkers s) (ndim s)) 0 rs),
      [TqdmOpen nsteps, SampleCall p0 thin] @ steps_events 0 (length rs) @ [Next, PbarClose])"
  unfolding run_short [OF assms] by (simp add: loop_Stop)

lemma run_full:
  assumes "betas s = Some b" "sample s p0 thin = Inr (yields rs rest)"
    "list_all (well_shaped (np_size b) (nwalkers s) (ndim s)) rs"
    "rs \<noteq> []" "int (length rs) = nsteps"
  shows "run_mcmc s p0 nsteps thin =
     (Inr (store_all (zeros3 (nat nsteps) (np_size b) (nwalkers s) (ndim s)) 0 rs),
      [TqdmOpen nsteps, SampleCall p0 thin] @ steps_events 0 (length rs) @ [PbarClose])"
proof -
  from assms(5) have n: "0 \<le> nsteps" "int (nat nsteps) = nsteps" "0 + length rs = nat nsteps"
    by auto
  from loop_yields_full [OF arrays_ok_zeros3 assms(3,4) n(3), of rest
      "[TqdmOpen nsteps, SampleCall p0 thin]"]
  show ?thesis
    unfolding run_mcmc_loop [OF assms(1) n(1) assms(2)] n(2) by simp
qed

lemma run_seq_fault:
  assumes "betas s = Some b" "sample s p0 thin = Inr (yields rs (Raise e))"
    "list_all (well_shaped (np_size b) (nwalkers s) (ndim s)) rs"
    "0 \<le> nsteps" "rs = [] \<or> int (length rs) < nsteps"
  shows "run_mcmc s p0 nsteps thin =
     (Inl e, [TqdmOpen nsteps, SampleCall p0 thin] @ steps_events 0 (length rs) @ [Next])"
proof (cases "rs = []")
  case True
  with assms(2) have "sample s p0 thin = Inr (Raise e)" by simp
  from run_mcmc_loop [OF assms(1,4) this] True show ?thesis by (simp add: loop_Raise)
next
  case False
  with assms(5) have "int (length rs) < nsteps" by simp
  from run_short [OF assms(1-3) this] show ?thesis by (simp add: loop_Raise)
qed

subsection \<open>Bounds on pulls and writes when at least one step is asked for\<close>

text \<open>
  With \<open>nsteps \<ge> 1\<close> the sequence is pulled at most \<open>nsteps\<close> times and every
  assignment goes to a step index below \<open>nsteps\<close>, for every sampler.
\<close>

lemma pulls_and_writes_bounded:
  assumes "1 \<le> nsteps"
  shows "count_list (snd (run_mcmc s p0 nsteps thin)) Next \<le> nat nsteps"
    and "SetItem t i \<in> set (snd (run_mcmc s p0 nsteps thin)) \<Longrightarrow> int i < nsteps"
proof -
  have "count_list (snd (run_mcmc s p0 nsteps thin)) Next \<le> nat nsteps \<and>
    (\<forall>t i. SetItem t i \<in> set (snd (run_mcmc s p0 nsteps thin)) \<longrightarrow> int i < nsteps)"
  proof (cases "betas s")
    case None
    then show ?thesis by (simp add: run_mcmc_no_betas)
  next
    case (Some b)
    from assms have n: "0 \<le> nsteps" "int 0 < nsteps" by simp_all
    show ?thesis
    proof (cases "sample s p0 thin")
      case (Inl e)
      from run_mcmc_sample_raises [OF Some n(1) this] show ?thesis by simp
    next
      case (Inr g)
      let ?l = "loop g nsteps 0 (zeros3 (nat nsteps) (np_size b) (nwalkers s) (ndim s))
             [TqdmOpen nsteps, SampleCall p0 thin]"
      from loop_bounds [OF n(2), of g "zeros3 (nat nsteps) (np_size b) (nwalkers s) (ndim s)"
          "[TqdmOpen nsteps, SampleCall p0 thin]"]
      obtain evs where evs: "snd ?l = [TqdmOpen nsteps, SampleCall p0 thin] @ evs"
        "count_list evs Next \<le> nat nsteps"
        "\<forall>t i. SetItem t i \<in> set evs \<longrightarrow> int i < nsteps"
        by auto
      from snd_close [of ?l] run_mcmc_loop [OF Some n(1) Inr]
      have "snd (run_mcmc s p0 nsteps thin) = snd ?l \<or>
            snd (run_mcmc s p0 nsteps thin) = snd ?l @ [PbarClose]"
        by simp
      with evs show ?thesis by auto
    qed
  qed
  then show "count_list (snd (run_mcmc s p0 nsteps thin)) Next \<le> nat nsteps"
    and "SetItem t i \<in> set (snd (run_mcmc s p0 nsteps thin)) \<Longrightarrow> int i < nsteps"
    by blast+
qed

subsection \<open>Runs of the sample inputs\<close>

lemma stub_fields:
  "betas (stub g) = Some betas_ex" "nwalkers (stub g) = 1" "ndim (stub g) = 2"
  "sample (stub g) p t = Inr g" "np_size betas_ex = 2"
  by (simp_all add: stub_def betas_ex_def np_size_def)

lemma well_shaped_mk_result: "well_shaped 2 1 2 (mk_result v)"
  by (simp add: well_shaped_def mk_result_def wf_ndarray_def)

lemma well_shaped_stub: "list_all (well_shaped (np_size betas_ex) (nwalkers (stub g)) (ndim (stub g)))
     [mk_result v, mk_result w]"
  using well_shaped_mk_result [of v] well_shaped_mk_result [of w] by (simp add: stub_fields)

lemma count_from_unfold: "count_from v = yields [mk_result v, mk_result (v + 1)] (count_from (v + 2))"
proof -
  have "count_from v = Yield (mk_result v) (count_from (v + 1))"
    by (subst count_from.code) simp
  also have "count_from (v + 1) = Yield (mk_result (v + 1)) (count_from (v + 2))"
    by (subst count_from.code) (simp add: add.assoc)
  finally show ?thesis by simp
qed

lemma run_ex_two:
  "run_mcmc (stub ex_two) p0_ex 3 1 =
     (Inr (ex_chain, ex_logl, ex_logpi),
      [TqdmOpen 3, SampleCall p0_ex 1,
       Next, SetItem Chain 0, SetItem Logl 0, SetItem Logpi 0, PbarUpdate 1,
       Next, SetItem Chain 1, SetItem Logl 1, SetItem Logpi 1, PbarUpdate 1,
       Next, PbarClose])"
  by code_simp

lemma run_ex_faulty:
  "run_mcmc (stub ex_faulty) p0_ex 2 1 =
     (Inl (Other ''boom''),
      [TqdmOpen 2, SampleCall p0_ex 1,
       Next, SetItem Chain 0, SetItem Logl 0, SetItem Logpi 0, PbarUpdate 1, Next])"
  by code_simp

lemma loop_ex_two_picky:
  "loop ex_two 3 0 (zeros3 (nat 3) (np_size betas_ex) (nwalkers picky) (ndim picky))
     [TqdmOpen 3, SampleCall p0_ex 4] =
     (Inr (ex_chain, ex_logl, ex_logpi),
      [TqdmOpen 3, SampleCall p0_ex 4,
       Next, SetItem Chain 0, SetItem Logl 0, SetItem Logpi 0, PbarUpdate 1,
       Next, SetItem Chain 1, SetItem Logl 1, SetItem Logpi 1, PbarUpdate 1,
       Next])"
  by code_simp

lemma loop_ex_two_bad:
  "loop ex_two 3 0
     (zeros3 (nat 3) (np_size betas_ex) (nwalkers (stub ex_two)) (ndim (stub ex_two)))
     [TqdmOpen 3, SampleCall p0_bad 0] =
     (Inr (ex_chain, ex_logl, ex_logpi),
      [TqdmOpen 3, SampleCall p0_bad 0,
       Next, SetItem Chain 0, SetItem Logl 0, SetItem Logpi 0, PbarUpdate 1,
       Next, SetItem Chain 1, SetItem Logl 1, SetItem Logpi 1, PbarUpdate 1,
       Next])"
  by code_simp

lemma picky_fields:
  "betas picky = Some betas_ex" "sample picky p0_ex 4 = Inr ex_two"
  "sample picky p0_ex 1 = Inl (Other ''unexpected arguments'')"
  "sample picky p0_bad 0 = Inl (Other ''unexpected arguments'')"
  by (simp_all add: picky_def p0_ex_def p0_bad_def)

section \<open>The properties\<close>

text \<open>
  C1. Whenever \<^verbatim>\<open>run_mcmc\<close> returns its triple, for any sampler, position, step count
  and thinning interval, the chain has the shape (nsteps, ntemps, nwalkers, ndim) and
  the log-likelihood and log-prior arrays both have the shape (nsteps, ntemps,
  nwalkers), where ntemps is the number of elements of the sampler's betas and
  nwalkers and ndim are the sampler's attributes. A run that returns has a step count
  that is not negative.
\<close>

theorem returned_shapes:
  assumes "run_mcmc s p0 nsteps thin = (Inr (chain, logl, logpi), tr)"
  shows "\<exists>b. betas s = Some b \<and> 0 \<le> nsteps \<and>
           shape chain = [nat nsteps, np_size b, nwalkers s, ndim s] \<and>
           shape logl = [nat nsteps, np_size b, nwalkers s] \<and>
           shape logpi = [nat nsteps, np_size b, nwalkers s]"
proof -
  from assms obtain b g tr' where b: "betas s = Some b" and n: "0 \<le> nsteps"
    and l: "loop g nsteps 0 (zeros3 (nat nsteps) (np_size b) (nwalkers s) (ndim s))
       [TqdmOpen nsteps, SampleCall p0 thin] = (Inr (chain, logl, logpi), tr')"
    by (rule run_mcmc_returns)
  from loop_shapes [OF l] have
    "shape chain = [nat nsteps, np_size b, nwalkers s, ndim s]"
    "shape logl = [nat nsteps, np_size b, nwalkers s]"
    "shape logpi = [nat nsteps, np_size b, nwalkers s]"
    by (simp_all add: shapes_def zeros3_def)
  with b n show ?thesis by simp
qed

theorem returned_shapes_witness:
  "fst (run_mcmc (stub ex_two) p0_ex 3 1) = Inr (ex_chain, ex_logl, ex_logpi) \<and>
   shape ex_chain = [3, 2, 1, 2] \<and> shape ex_logl = [3, 2, 1] \<and> shape ex_logpi = [3, 2, 1]"
  using returned_shapes [OF run_ex_two] run_ex_two by (simp add: stub_fields)

text \<open>
  C2. The bound on the pulls fails for \<open>nsteps = 0\<close>: the sequence is pulled once, which
  is more than \<open>nsteps\<close>, and the run ends in \<open>IndexError\<close>. (For \<open>nsteps \<ge> 1\<close> the
  bound holds for every sampler: \<open>pulls_and_writes_bounded\<close>.)
\<close>

theorem zero_steps_one_pull:
  "fst (run_mcmc (stub ex_two) p0_ex 0 1) = Inl IndexError \<and>
   count_list (snd (run_mcmc (stub ex_two) p0_ex 0 1)) Next = 1"
  by code_simp

text \<open>
  C3. With \<open>nsteps = 0\<close> and a sequence that has a first result, \<^verbatim>\<open>run_mcmc\<close> does not
  return: it pulls that result, the assignment to step slot 0 of the empty chain
  raises \<open>IndexError\<close>, and that is what the caller gets.
\<close>

theorem zero_steps_pulls_and_faults:
  assumes "betas s = Some b" "sample s p0 thin = Inr (Yield r g)"
  shows "run_mcmc s p0 0 thin = (Inl IndexError, [TqdmOpen 0, SampleCall p0 thin, Next])"
  using run_mcmc_loop [OF assms(1) _ assms(2), of 0]
    loop_zero_steps [OF arrays_ok_zeros3, where r = r and g = g and nsteps = 0]
  by simp

theorem zero_steps_pulls_and_faults_witness:
  "betas (stub (count_from 1)) = Some betas_ex \<and>
   sample (stub (count_from 1)) p0_ex 1 = Inr (Yield (mk_result 1) (count_from 2)) \<and>
   run_mcmc (stub (count_from 1)) p0_ex 0 1
     = (Inl IndexError, [TqdmOpen 0, SampleCall p0_ex 1, Next])"
proof -
  have g: "count_from 1 = Yield (mk_result 1) (count_from 2)"
    by (subst count_from.code) simp
  have b: "betas (stub (count_from 1)) = Some betas_ex"
    by (simp add: stub_fields)
  have s: "sample (stub (count_from 1)) p0_ex 1 = Inr (Yield (mk_result 1) (count_from 2))"
    by (simp add: stub_fields g [symmetric])
  from zero_steps_pulls_and_faults [OF b s] b s show ?thesis by simp
qed

text \<open>
  C4. A sequence that ends after \<open>k < nsteps\<close> well-shaped results: \<^verbatim>\<open>run_mcmc\<close> returns
  its triple, step slots \<open>0 .. k - 1\<close> of the three arrays hold the \<^verbatim>\<open>x\<close>, \<^verbatim>\<open>logl\<close> and
  \<^verbatim>\<open>logP\<close> of the results in the order produced, and every step slot from \<open>k\<close> up to
  \<open>nsteps - 1\<close> is still all zeros.
\<close>

theorem short_sequence_zero_padded:
  assumes "betas s = Some b" "sample s p0 thin = Inr (yields rs StopIteration)"
    "list_all (well_shaped (np_size b) (nwalkers s) (ndim s)) rs"
    "int (length rs) < nsteps"
  shows "\<exists>chain logl logpi tr.
      run_mcmc s p0 nsteps thin = (Inr (chain, logl, logpi), tr) \<and>
      (\<forall>i. i < length rs \<longrightarrow>
         step_slot chain i = data (res_x (rs ! i)) \<and>
         step_slot logl i = data (res_logl (rs ! i)) \<and>
         step_slot logpi i = data (res_logP (rs ! i))) \<and>
      (\<forall>i. length rs \<le> i \<and> int i < nsteps \<longrightarrow>
         step_slot chain i = replicate (np_size b * nwalkers s * ndim s) 0 \<and>
         step_slot logl i = replicate (np_size b * nwalkers s) 0 \<and>
         step_slot logpi i = replicate (np_size b * nwalkers s) 0)"
proof -
  obtain c l p where st:
    "store_all (zeros3 (nat nsteps) (np_size b) (nwalkers s) (ndim s)) 0 rs = (c, l, p)"
    by (cases "store_all (zeros3 (nat nsteps) (np_size b) (nwalkers s) (ndim s)) 0 rs") auto
  from assms(4) have le: "length rs \<le> nat nsteps" by simp
  note slots = slots_of_stored [OF assms(3) le st]
  have "run_mcmc s p0 nsteps thin =
     (Inr (c, l, p),
      [TqdmOpen nsteps, SampleCall p0 thin] @ steps_events 0 (length rs) @ [Next, PbarClose])"
    using run_short_stop [OF assms] st by simp
  moreover have "\<forall>i. i < length rs \<longrightarrow>
         step_slot c i = data (res_x (rs ! i)) \<and>
         step_slot l i = data (res_logl (rs ! i)) \<and>
         step_slot p i = data (res_logP (rs ! i))"
    using slots(1) by blast
  moreover have "\<forall>i. length rs \<le> i \<and> int i < nsteps \<longrightarrow>
         step_slot c i = replicate (np_size b * nwalkers s * ndim s) 0 \<and>
         step_slot l i = replicate (np_size b * nwalkers s) 0 \<and>
         step_slot p i = replicate (np_size b * nwalkers s) 0"
  proof (intro allI impI)
    fix i assume "length rs \<le> i \<and> int i < nsteps"
    then have "length rs \<le> i" "i < nat nsteps" by linarith+
    then show "step_slot c i = replicate (np_size b * nwalkers s * ndim s) 0 \<and>
         step_slot l i = replicate (np_size b * nwalkers s) 0 \<and>
         step_slot p i = replicate (np_size b * nwalkers s) 0"
      by (rule slots(2))
  qed
  ultimately show ?thesis by blast
qed

theorem short_sequence_zero_padded_witness:
  "sample (stub ex_two) p0_ex 1 = Inr (yields [mk_result 1, mk_result 5] StopIteration) \<and>
   (\<exists>chain logl logpi tr.
      run_mcmc (stub ex_two) p0_ex 3 1 = (Inr (chain, logl, logpi), tr) \<and>
      step_slot chain 0 = [1, 2, 3, 4] \<and> step_slot chain 1 = [5, 6, 7, 8] \<and>
      step_slot chain 2 = [0, 0, 0, 0] \<and>
      step_slot logl 0 = [- 1, - 2] \<and> step_slot logl 1 = [- 5, - 6] \<and>
      step_slot logl 2 = [0, 0] \<and>
      step_slot logpi 0 = [10, 11] \<and> step_slot logpi 1 = [50, 51] \<and>
      step_slot logpi 2 = [0, 0])"
proof -
  have b: "betas (stub ex_two) = Some betas_ex" by (simp add: stub_fields)
  have s: "sample (stub ex_two) p0_ex 1 = Inr (yields [mk_result 1, mk_result 5] StopIteration)"
    by (simp add: stub_fields ex_two_def)
  have n: "int (length [mk_result 1, mk_result 5]) < 3" by simp
  from short_sequence_zero_padded [OF b s well_shaped_stub n]
  obtain chain logl logpi tr where
    r: "run_mcmc (stub ex_two) p0_ex 3 1 = (Inr (chain, logl, logpi), tr)"
    and a: "\<forall>i. i < length [mk_result 1, mk_result 5] \<longrightarrow>
         step_slot chain i = data (res_x ([mk_result 1, mk_result 5] ! i)) \<and>
         step_slot logl i = data (res_logl ([mk_result 1, mk_result 5] ! i)) \<and>
         step_slot logpi i = data (res_logP ([mk_result 1, mk_result 5] ! i))"
    and z: "\<forall>i. length [mk_result 1, mk_result 5] \<le> i \<and> int i < 3 \<longrightarrow>
         step_slot chain i = replicate (np_size betas_ex * nwalkers (stub ex_two) * ndim (stub ex_two)) 0 \<and>
         step_slot logl i = replicate (np_size betas_ex * nwalkers (stub ex_two)) 0 \<and>
         step_slot logpi i = replicate (np_size betas_ex * nwalkers (stub ex_two)) 0"
    by blast
  from a [rule_format, of 0] a [rule_format, of 1] z [rule_format, of 2]
  have "step_slot chain 0 = [1, 2, 3, 4] \<and> step_slot chain 1 = [5, 6, 7, 8] \<and>
      step_slot chain 2 = [0, 0, 0, 0] \<and>
      step_slot logl 0 = [- 1, - 2] \<and> step_slot logl 1 = [- 5, - 6] \<and>
      step_slot logl 2 = [0, 0] \<and>
      step_slot logpi 0 = [10, 11] \<and> step_slot logpi 1 = [50, 51] \<and>
      step_slot logpi 2 = [0, 0]"
    by (simp add: mk_result_def stub_fields numeral_eq_Suc)
  with r s show ?thesis by blast
qed

text \<open>
  C5. A sequence that yields the well-shaped results \<open>rs\<close> and raises \<open>e\<close> at the next
  pull, with that pull within the step count (fewer than \<open>nsteps\<close> results before it, or
  the very first pull): the caller gets \<open>e\<close> itself and no arrays. The events show one
  pull for each result and one for the fault, nothing after it: no second attempt, and
  the run ends there.
\<close>

theorem sequence_fault_propagates:
  assumes "betas s = Some b" "sample s p0 thin = Inr (yields rs (Raise e))"
    "list_all (well_shaped (np_size b) (nwalkers s) (ndim s)) rs"
    "0 \<le> nsteps" "rs = [] \<or> int (length rs) < nsteps"
  shows "run_mcmc s p0 nsteps thin =
     (Inl e, [TqdmOpen nsteps, SampleCall p0 thin] @ steps_events 0 (length rs) @ [Next])"
proof (cases "rs = []")
  case True
  with assms(2) have "sample s p0 thin = Inr (Raise e)" by simp
  from run_mcmc_loop [OF assms(1,4) this] True show ?thesis by (simp add: loop_Raise)
next
  case False
  with assms(5) have "int (length rs) < nsteps" by simp
  from run_short [OF assms(1-3) this] show ?thesis by (simp add: loop_Raise)
qed

theorem sequence_fault_propagates_witness:
  "sample (stub ex_faulty) p0_ex 1 = Inr (yields [mk_result 1] (Raise (Other ''boom''))) \<and>
   run_mcmc (stub ex_faulty) p0_ex 2 1 =
     (Inl (Other ''boom''),
      [TqdmOpen 2, SampleCall p0_ex 1,
       Next, SetItem Chain 0, SetItem Logl 0, SetItem Logpi 0, PbarUpdate 1, Next])"
proof -
  have b: "betas (stub ex_faulty) = Some betas_ex" by (simp add: stub_fields)
  have s: "sample (stub ex_faulty) p0_ex 1 = Inr (yields [mk_result 1] (Raise (Other ''boom'')))"
    by (simp add: stub_fields ex_faulty_def)
  have w: "list_all (well_shaped (np_size betas_ex) (nwalkers (stub ex_faulty)) (ndim (stub ex_faulty)))
     [mk_result 1]"
    using well_shaped_mk_result [of 1] by (simp add: stub_fields)
  have n: "(0::int) \<le> 2" "[mk_result 1] = [] \<or> int (length [mk_result 1]) < 2" by simp_all
  from sequence_fault_propagates [OF b s w n] s show ?thesis
    by (simp add: step_events_def)
qed

text \<open>
  C6, as amended. A negative step count fails with \<open>ValueError\<close> at the first allocation:
  no array exists, the progress bar has not been opened and the sampler has not been
  called. The thinning interval and the position are not looked at by \<^verbatim>\<open>run_mcmc\<close>: two
  calls whose sampler hands out the same sequence for them end the same way, whatever
  the values. With a step count that is not negative, \<^verbatim>\<open>sample\<close> is applied to the position
  and the thinning interval as they were given, whatever they are: when that call
  raises, its exception is the outcome, and otherwise the run is the loop over the
  sequence it returned.
\<close>

theorem negative_steps_rejected_first:
  "(\<forall>b. betas s = Some b \<and> nsteps < 0 \<longrightarrow>
      run_mcmc s p0 nsteps thin = (Inl ValueError, [])) \<and>
   (\<forall>p0' thin'. sample s p0' thin' = sample s p0 thin \<longrightarrow>
      fst (run_mcmc s p0' nsteps thin') = fst (run_mcmc s p0 nsteps thin)) \<and>
   (\<forall>b e. betas s = Some b \<and> 0 \<le> nsteps \<and> sample s p0 thin = Inl e \<longrightarrow>
      run_mcmc s p0 nsteps thin = (Inl e, [TqdmOpen nsteps, SampleCall p0 thin])) \<and>
   (\<forall>b g. betas s = Some b \<and> 0 \<le> nsteps \<and> sample s p0 thin = Inr g \<longrightarrow>
      run_mcmc s p0 nsteps thin =
        (case loop g nsteps 0 (zeros3 (nat nsteps) (np_size b) (nwalkers s) (ndim s))
                [TqdmOpen nsteps, SampleCall p0 thin] of
           (Inl e, tr) \<Rightarrow> (Inl e, tr)
         | (Inr A, tr) \<Rightarrow> (Inr A, tr @ [PbarClose])))"
proof (intro conjI allI impI)
  fix b
  assume "betas s = Some b \<and> nsteps < 0"
  then have "betas s = Some b" "nsteps < 0" by simp_all
  then show "run_mcmc s p0 nsteps thin = (Inl ValueError, [])"
    by (rule run_mcmc_negative)
next
  fix p0' thin'
  assume "sample s p0' thin' = sample s p0 thin"
  then show "fst (run_mcmc s p0' nsteps thin') = fst (run_mcmc s p0 nsteps thin)"
    by (rule run_mcmc_fst_args)
next
  fix b e
  assume "betas s = Some b \<and> 0 \<le> nsteps \<and> sample s p0 thin = Inl e"
  then have "betas s = Some b" "0 \<le> nsteps" "sample s p0 thin = Inl e" by simp_all
  then show "run_mcmc s p0 nsteps thin = (Inl e, [TqdmOpen nsteps, SampleCall p0 thin])"
    by (rule run_mcmc_sample_raises)
next
  fix b g
  assume "betas s = Some b \<and> 0 \<le> nsteps \<and> sample s p0 thin = Inr g"
  then have "betas s = Some b" "0 \<le> nsteps" "sample s p0 thin = Inr g" by simp_all
  then show "run_mcmc s p0 nsteps thin =
        (case loop g nsteps 0 (zeros3 (nat nsteps) (np_size b) (nwalkers s) (ndim s))
                [TqdmOpen nsteps, SampleCall p0 thin] of
           (Inl e, tr) \<Rightarrow> (Inl e, tr)
         | (Inr A, tr) \<Rightarrow> (Inr A, tr @ [PbarClose]))"
    by (rule run_mcmc_loop)
qed

theorem negative_steps_rejected_first_witness:
  "run_mcmc (stub ex_two) p0_ex (- 1) 1 = (Inl ValueError, []) \<and>
   sample (stub ex_two) p0_bad 0 = sample (stub ex_two) p0_ex 1 \<and>
   fst (run_mcmc (stub ex_two) p0_bad 3 0) = fst (run_mcmc (stub ex_two) p0_ex 3 1) \<and>
   sample picky p0_bad 0 = Inl (Other ''unexpected arguments'') \<and>
   run_mcmc picky p0_bad 3 0 =
     (Inl (Other ''unexpected arguments''), [TqdmOpen 3, SampleCall p0_bad 0]) \<and>
   sample (stub ex_two) p0_bad 0 = Inr ex_two \<and>
   run_mcmc (stub ex_two) p0_bad 3 0 =
     (Inr (ex_chain, ex_logl, ex_logpi),
      [TqdmOpen 3, SampleCall p0_bad 0,
       Next, SetItem Chain 0, SetItem Logl 0, SetItem Logpi 0, PbarUpdate 1,
       Next, SetItem Chain 1, SetItem Logl 1, SetItem Logpi 1, PbarUpdate 1,
       Next, PbarClose])"
proof -
  have b: "betas (stub ex_two) = Some betas_ex" "(- 1 :: int) < 0" by (simp_all add: stub_fields)
  have n: "(0::int) \<le> 3" by simp
  have s: "sample (stub ex_two) p0_bad 0 = sample (stub ex_two) p0_ex 1"
    by (simp add: stub_fields)
  have g: "sample (stub ex_two) p0_bad 0 = Inr ex_two" by (simp add: stub_fields)
  from negative_steps_rejected_first [of "stub ex_two" "- 1" p0_ex 1] b
  have 1: "run_mcmc (stub ex_two) p0_ex (- 1) 1 = (Inl ValueError, [])" by blast
  from negative_steps_rejected_first [of "stub ex_two" 3 p0_ex 1] s
  have 2: "fst (run_mcmc (stub ex_two) p0_bad 3 0) = fst (run_mcmc (stub ex_two) p0_ex 3 1)"
    by blast
  from negative_steps_rejected_first [of picky 3 p0_bad 0] picky_fields(1,4) n
  have 3: "run_mcmc picky p0_bad 3 0 =
     (Inl (Other ''unexpected arguments''), [TqdmOpen 3, SampleCall p0_bad 0])"
    by blast
  from negative_steps_rejected_first [of "stub ex_two" 3 p0_bad 0] b(1) g n
  have "run_mcmc (stub ex_two) p0_bad 3 0 =
      (case loop ex_two 3 0
              (zeros3 (nat 3) (np_size betas_ex) (nwalkers (stub ex_two)) (ndim (stub ex_two)))
              [TqdmOpen 3, SampleCall p0_bad 0] of
         (Inl e, tr) \<Rightarrow> (Inl e, tr)
       | (Inr A, tr) \<Rightarrow> (Inr A, tr @ [PbarClose]))"
    by blast
  then have 4: "run_mcmc (stub ex_two) p0_bad 3 0 =
     (Inr (ex_chain, ex_logl, ex_logpi),
      [TqdmOpen 3, SampleCall p0_bad 0,
       Next, SetItem Chain 0, SetItem Logl 0, SetItem Logpi 0, PbarUpdate 1,
       Next, SetItem Chain 1, SetItem Logl 1, SetItem Logpi 1, PbarUpdate 1,
       Next, PbarClose])"
    unfolding loop_ex_two_bad by simp
  from 1 2 3 4 s g picky_fields(4) show ?thesis by blast
qed

text \<open>
  C6 as stated fails: with a thinning interval of \<open>0\<close> or \<open>- 2\<close>, or with a position of
  shape (5) for one walker and two parameters, \<^verbatim>\<open>run_mcmc\<close> allocates, runs the loop and
  returns its arrays.
\<close>

theorem unchecked_thin_and_p0_accepted:
  "fst (run_mcmc (stub ex_two) p0_ex 3 0) = Inr (ex_chain, ex_logl, ex_logpi) \<and>
   fst (run_mcmc (stub ex_two) p0_ex 3 (- 2)) = Inr (ex_chain, ex_logl, ex_logpi) \<and>
   fst (run_mcmc (stub ex_two) p0_bad 3 1) = Inr (ex_chain, ex_logl, ex_logpi)"
  by code_simp

text \<open>
  C7. The step axis follows the order of the sequence: when the sequence starts with
  the well-shaped results \<open>rs\<close>, and either these are exactly \<open>nsteps\<close> results (whatever
  the sequence would produce after them) or they are fewer and the sequence ends after
  them, \<^verbatim>\<open>run_mcmc\<close> returns and step slot \<open>i\<close> of the chain, of the log-likelihood and of
  the log-prior holds the \<^verbatim>\<open>x\<close>, \<^verbatim>\<open>logl\<close> and \<^verbatim>\<open>logP\<close> of the \<open>i\<close>-th result.
\<close>

theorem step_axis_follows_yield_order:
  assumes "betas s = Some b" "sample s p0 thin = Inr (yields rs rest)"
    "list_all (well_shaped (np_size b) (nwalkers s) (ndim s)) rs"
    "(rs \<noteq> [] \<and> int (length rs) = nsteps) \<or> (int (length rs) < nsteps \<and> rest = StopIteration)"
  shows "\<exists>chain logl logpi tr.
      run_mcmc s p0 nsteps thin = (Inr (chain, logl, logpi), tr) \<and>
      (\<forall>i. i < length rs \<longrightarrow>
         step_slot chain i = data (res_x (rs ! i)) \<and>
         step_slot logl i = data (res_logl (rs ! i)) \<and>
         step_slot logpi i = data (res_logP (rs ! i)))"
proof -
  obtain c l p where st:
    "store_all (zeros3 (nat nsteps) (np_size b) (nwalkers s) (ndim s)) 0 rs = (c, l, p)"
    by (cases "store_all (zeros3 (nat nsteps) (np_size b) (nwalkers s) (ndim s)) 0 rs") auto
  from assms(4) have le: "length rs \<le> nat nsteps" by auto
  have slots: "\<forall>i. i < length rs \<longrightarrow>
         step_slot c i = data (res_x (rs ! i)) \<and>
         step_slot l i = data (res_logl (rs ! i)) \<and>
         step_slot p i = data (res_logP (rs ! i))"
    using slots_of_stored(1) [OF assms(3) le st] by blast
  from assms(4) have "\<exists>tr. run_mcmc s p0 nsteps thin = (Inr (c, l, p), tr)"
  proof
    assume "rs \<noteq> [] \<and> int (length rs) = nsteps"
    then have "rs \<noteq> []" "int (length rs) = nsteps" by simp_all
    from run_full [OF assms(1-3) this] st show ?thesis by simp
  next
    assume a: "int (length rs) < nsteps \<and> rest = StopIteration"
    with assms(2) have "sample s p0 thin = Inr (yields rs StopIteration)"
      "int (length rs) < nsteps" by simp_all
    from run_short_stop [OF assms(1) this(1) assms(3) this(2)] st show ?thesis by simp
  qed
  with slots show ?thesis by blast
qed

theorem step_axis_follows_yield_order_witness:
  "sample (stub (count_from 1)) p0_ex 1 = Inr (yields [mk_result 1, mk_result 2] (count_from 3)) \<and>
   (\<exists>chain logl logpi tr.
      run_mcmc (stub (count_from 1)) p0_ex 2 1 = (Inr (chain, logl, logpi), tr) \<and>
      step_slot chain 0 = [1, 2, 3, 4] \<and> step_slot chain 1 = [2, 3, 4, 5] \<and>
      step_slot logl 0 = [- 1, - 2] \<and> step_slot logl 1 = [- 2, - 3] \<and>
      step_slot logpi 0 = [10, 11] \<and> step_slot logpi 1 = [20, 21])"
proof -
  have b: "betas (stub (count_from 1)) = Some betas_ex" by (simp add: stub_fields)
  have s: "sample (stub (count_from 1)) p0_ex 1
             = Inr (yields [mk_result 1, mk_result 2] (count_from 3))"
    using count_from_unfold [of 1] by (simp add: stub_fields)
  have n: "([mk_result 1, mk_result 2] \<noteq> [] \<and> int (length [mk_result 1, mk_result 2]) = 2) \<or>
     (int (length [mk_result 1, mk_result 2]) < 2 \<and> count_from 3 = StopIteration)"
    by simp
  from step_axis_follows_yield_order [OF b s well_shaped_stub n]
  obtain chain logl logpi tr where
    r: "run_mcmc (stub (count_from 1)) p0_ex 2 1 = (Inr (chain, logl, logpi), tr)"
    and a: "\<forall>i. i < length [mk_result 1, mk_result 2] \<longrightarrow>
         step_slot chain i = data (res_x ([mk_result 1, mk_result 2] ! i)) \<and>
         step_slot logl i = data (res_logl ([mk_result 1, mk_result 2] ! i)) \<and>
         step_slot logpi i = data (res_logP ([mk_result 1, mk_result 2] ! i))"
    by blast
  from a [rule_format, of 0] a [rule_format, of 1]
  have "step_slot chain 0 = [1, 2, 3, 4] \<and> step_slot chain 1 = [2, 3, 4, 5] \<and>
      step_slot logl 0 = [- 1, - 2] \<and> step_slot logl 1 = [- 2, - 3] \<and>
      step_slot logpi 0 = [10, 11] \<and> step_slot logpi 1 = [20, 21]"
    by (simp add: mk_result_def)
  with r s show ?thesis by blast
qed

text \<open>
  C8, as amended. On every path on which \<^verbatim>\<open>run_mcmc\<close> returns (the sequence is
  exhausted, or the step counter has reached \<open>nsteps\<close>) the progress bar was opened
  first and is closed last, once. When a fault raised by the sequence propagates, the
  bar has been opened and is not closed.
\<close>

theorem progress_bar_release:
  "(\<forall>A tr. run_mcmc s p0 nsteps thin = (Inr A, tr) \<longrightarrow>
      (\<exists>evs. tr = TqdmOpen nsteps # evs @ [PbarClose] \<and> PbarClose \<notin> set evs)) \<and>
   (\<forall>b rs e. betas s = Some b \<and> sample s p0 thin = Inr (yields rs (Raise e)) \<and>
      list_all (well_shaped (np_size b) (nwalkers s) (ndim s)) rs \<and>
      0 \<le> nsteps \<and> (rs = [] \<or> int (length rs) < nsteps) \<longrightarrow>
      fst (run_mcmc s p0 nsteps thin) = Inl e \<and>
      hd (snd (run_mcmc s p0 nsteps thin)) = TqdmOpen nsteps \<and>
      PbarClose \<notin> set (snd (run_mcmc s p0 nsteps thin)))"
proof (intro conjI allI impI)
  fix A tr
  assume r: "run_mcmc s p0 nsteps thin = (Inr A, tr)"
  then obtain b g tr' where b: "betas s = Some b" "0 \<le> nsteps" "sample s p0 thin = Inr g"
    and l: "loop g nsteps 0 (zeros3 (nat nsteps) (np_size b) (nwalkers s) (ndim s))
       [TqdmOpen nsteps, SampleCall p0 thin] = (Inr A, tr')"
    and tr: "tr = tr' @ [PbarClose]"
    by (rule run_mcmc_returns)
  from loop_events [of g nsteps 0 "zeros3 (nat nsteps) (np_size b) (nwalkers s) (ndim s)"
      "[TqdmOpen nsteps, SampleCall p0 thin]"] l
  obtain evs where evs: "tr' = [TqdmOpen nsteps, SampleCall p0 thin] @ evs"
    "list_all is_loop_event evs" by auto
  from evs(2) have "PbarClose \<notin> set (SampleCall p0 thin # evs)"
    by (simp add: loop_events_no_close)
  moreover from evs(1) tr have "tr = TqdmOpen nsteps # (SampleCall p0 thin # evs) @ [PbarClose]"
    by simp
  ultimately show "\<exists>evs. tr = TqdmOpen nsteps # evs @ [PbarClose] \<and> PbarClose \<notin> set evs"
    by blast
next
  fix b rs e
  assume a: "betas s = Some b \<and> sample s p0 thin = Inr (yields rs (Raise e)) \<and>
      list_all (well_shaped (np_size b) (nwalkers s) (ndim s)) rs \<and>
      0 \<le> nsteps \<and> (rs = [] \<or> int (length rs) < nsteps)"
  then have "betas s = Some b" "sample s p0 thin = Inr (yields rs (Raise e))"
    "list_all (well_shaped (np_size b) (nwalkers s) (ndim s)) rs"
    "0 \<le> nsteps" "rs = [] \<or> int (length rs) < nsteps"
    by simp_all
  then have r: "run_mcmc s p0 nsteps thin =
     (Inl e, [TqdmOpen nsteps, SampleCall p0 thin] @ steps_events 0 (length rs) @ [Next])"
    by (rule run_seq_fault)
  then show "fst (run_mcmc s p0 nsteps thin) = Inl e" by simp
  from r show "hd (snd (run_mcmc s p0 nsteps thin)) = TqdmOpen nsteps" by simp
  from r show "PbarClose \<notin> set (snd (run_mcmc s p0 nsteps thin))"
    using loop_events_no_close [OF list_all_steps_events, of 0 "length rs"] by simp
qed

theorem progress_bar_release_witness:
  "run_mcmc (stub ex_two) p0_ex 3 1 =
     (Inr (ex_chain, ex_logl, ex_logpi),
      TqdmOpen 3 #
      [SampleCall p0_ex 1,
       Next, SetItem Chain 0, SetItem Logl 0, SetItem Logpi 0, PbarUpdate 1,
       Next, SetItem Chain 1, SetItem Logl 1, SetItem Logpi 1, PbarUpdate 1,
       Next] @ [PbarClose]) \<and>
   sample (stub ex_faulty) p0_ex 1 = Inr (yields [mk_result 1] (Raise (Other ''boom''))) \<and>
   fst (run_mcmc (stub ex_faulty) p0_ex 2 1) = Inl (Other ''boom'') \<and>
   hd (snd (run_mcmc (stub ex_faulty) p0_ex 2 1)) = TqdmOpen 2 \<and>
   PbarClose \<notin> set (snd (run_mcmc (stub ex_faulty) p0_ex 2 1))"
proof -
  have b: "betas (stub ex_faulty) = Some betas_ex" by (simp add: stub_fields)
  have s: "sample (stub ex_faulty) p0_ex 1 = Inr (yields [mk_result 1] (Raise (Other ''boom'')))"
    by (simp add: stub_fields ex_faulty_def)
  have w: "list_all (well_shaped (np_size betas_ex) (nwalkers (stub ex_faulty)) (ndim (stub ex_faulty)))
     [mk_result 1]"
    using well_shaped_mk_result [of 1] by (simp add: stub_fields)
  have n: "(0::int) \<le> 2" "[mk_result 1] = [] \<or> int (length [mk_result 1]) < 2" by simp_all
  from progress_bar_release [of "stub ex_faulty" p0_ex 2 1] b s w n
  have f: "fst (run_mcmc (stub ex_faulty) p0_ex 2 1) = Inl (Other ''boom'') \<and>
   hd (snd (run_mcmc (stub ex_faulty) p0_ex 2 1)) = TqdmOpen 2 \<and>
   PbarClose \<notin> set (snd (run_mcmc (stub ex_faulty) p0_ex 2 1))"
    by blast
  from progress_bar_release [of "stub ex_two" p0_ex 3 1] run_ex_two
  have "\<exists>evs. [TqdmOpen 3, SampleCall p0_ex 1,
       Next, SetItem Chain 0, SetItem Logl 0, SetItem Logpi 0, PbarUpdate 1,
       Next, SetItem Chain 1, SetItem Logl 1, SetItem Logpi 1, PbarUpdate 1,
       Next, PbarClose] = TqdmOpen 3 # evs @ [PbarClose] \<and> PbarClose \<notin> set evs"
    by blast
  with f s run_ex_two show ?thesis by simp
qed

text \<open>
  C8 as stated fails: a sequence that raises at its second pull leaves the progress
  bar open.
\<close>

theorem progress_bar_left_open_on_fault:
  "fst (run_mcmc (stub ex_faulty) p0_ex 2 1) = Inl (Other ''boom'') \<and>
   TqdmOpen 2 \<in> set (snd (run_mcmc (stub ex_faulty) p0_ex 2 1)) \<and>
   PbarClose \<notin> set (snd (run_mcmc (stub ex_faulty) p0_ex 2 1))"
  by (simp add: run_ex_faulty)

text \<open>
  C9. Once betas has been read and the arrays are allocated, the sampler is asked for
  its sequence exactly once, with the position and the thinning interval as
  \<^verbatim>\<open>run_mcmc\<close> received them; the run depends on the sampler's \<^verbatim>\<open>sample\<close> through
  its answer to these two arguments only; and that answer decides the run: when
  \<^verbatim>\<open>sample\<close> raises for them, its exception is the outcome, and when it returns a
  sequence, the run is the loop over that sequence.
\<close>

theorem thin_and_p0_passed_through:
  assumes "betas s = Some b" "0 \<le> nsteps"
  shows "filter is_sample_call (snd (run_mcmc s p0 nsteps thin)) = [SampleCall p0 thin] \<and>
    (\<forall>s'. betas s' = betas s \<and> nwalkers s' = nwalkers s \<and> ndim s' = ndim s \<and>
          sample s' p0 thin = sample s p0 thin \<longrightarrow>
          run_mcmc s' p0 nsteps thin = run_mcmc s p0 nsteps thin) \<and>
    (\<forall>e. sample s p0 thin = Inl e \<longrightarrow>
          run_mcmc s p0 nsteps thin = (Inl e, [TqdmOpen nsteps, SampleCall p0 thin])) \<and>
    (\<forall>g. sample s p0 thin = Inr g \<longrightarrow>
          run_mcmc s p0 nsteps thin =
            (case loop g nsteps 0 (zeros3 (nat nsteps) (np_size b) (nwalkers s) (ndim s))
                    [TqdmOpen nsteps, SampleCall p0 thin] of
               (Inl e, tr) \<Rightarrow> (Inl e, tr)
             | (Inr A, tr) \<Rightarrow> (Inr A, tr @ [PbarClose])))"
proof (intro conjI)
  show "filter is_sample_call (snd (run_mcmc s p0 nsteps thin)) = [SampleCall p0 thin]"
  proof (cases "sample s p0 thin")
    case (Inl e)
    from run_mcmc_sample_raises [OF assms this] show ?thesis by simp
  next
    case (Inr g)
    from run_trace [OF assms this] obtain evs where "list_all is_loop_event evs"
      "snd (run_mcmc s p0 nsteps thin) = [TqdmOpen nsteps, SampleCall p0 thin] @ evs \<or>
       snd (run_mcmc s p0 nsteps thin) = [TqdmOpen nsteps, SampleCall p0 thin] @ evs @ [PbarClose]"
      by blast
    then show ?thesis by (auto simp: filter_loop_events)
  qed
next
  show "\<forall>s'. betas s' = betas s \<and> nwalkers s' = nwalkers s \<and> ndim s' = ndim s \<and>
          sample s' p0 thin = sample s p0 thin \<longrightarrow>
          run_mcmc s' p0 nsteps thin = run_mcmc s p0 nsteps thin"
  proof (intro allI impI)
    fix s' :: sampler
    assume "betas s' = betas s \<and> nwalkers s' = nwalkers s \<and> ndim s' = ndim s \<and>
          sample s' p0 thin = sample s p0 thin"
    then have eq: "betas s' = betas s" "nwalkers s' = nwalkers s" "ndim s' = ndim s"
      "sample s' p0 thin = sample s p0 thin" by simp_all
    show "run_mcmc s' p0 nsteps thin = run_mcmc s p0 nsteps thin"
      unfolding run_mcmc_def eq by (rule refl)
  qed
next
  show "\<forall>e. sample s p0 thin = Inl e \<longrightarrow>
          run_mcmc s p0 nsteps thin = (Inl e, [TqdmOpen nsteps, SampleCall p0 thin])"
  proof (intro allI impI)
    fix e
    assume "sample s p0 thin = Inl e"
    with assms show "run_mcmc s p0 nsteps thin = (Inl e, [TqdmOpen nsteps, SampleCall p0 thin])"
      by (rule run_mcmc_sample_raises)
  qed
next
  show "\<forall>g. sample s p0 thin = Inr g \<longrightarrow>
          run_mcmc s p0 nsteps thin =
            (case loop g nsteps 0 (zeros3 (nat nsteps) (np_size b) (nwalkers s) (ndim s))
                    [TqdmOpen nsteps, SampleCall p0 thin] of
               (Inl e, tr) \<Rightarrow> (Inl e, tr)
             | (Inr A, tr) \<Rightarrow> (Inr A, tr @ [PbarClose]))"
  proof (intro allI impI)
    fix g
    assume "sample s p0 thin = Inr g"
    with assms show "run_mcmc s p0 nsteps thin =
            (case loop g nsteps 0 (zeros3 (nat nsteps) (np_size b) (nwalkers s) (ndim s))
                    [TqdmOpen nsteps, SampleCall p0 thin] of
               (Inl e, tr) \<Rightarrow> (Inl e, tr)
             | (Inr A, tr) \<Rightarrow> (Inr A, tr @ [PbarClose]))"
      by (rule run_mcmc_loop)
  qed
qed

theorem thin_and_p0_passed_through_witness:
  "filter is_sample_call (snd (run_mcmc picky p0_ex 3 4)) = [SampleCall p0_ex 4] \<and>
   sample picky p0_ex 4 = Inr ex_two \<and>
   run_mcmc picky p0_ex 3 4 =
     (Inr (ex_chain, ex_logl, ex_logpi),
      [TqdmOpen 3, SampleCall p0_ex 4,
       Next, SetItem Chain 0, SetItem Logl 0, SetItem Logpi 0, PbarUpdate 1,
       Next, SetItem Chain 1, SetItem Logl 1, SetItem Logpi 1, PbarUpdate 1,
       Next, PbarClose]) \<and>
   run_mcmc (stub ex_two) p0_ex 3 4 = run_mcmc picky p0_ex 3 4 \<and>
   sample picky p0_ex 1 = Inl (Other ''unexpected arguments'') \<and>
   run_mcmc picky p0_ex 3 1 =
     (Inl (Other ''unexpected arguments''), [TqdmOpen 3, SampleCall p0_ex 1])"
proof -
  have n: "(0::int) \<le> 3" by simp
  note four = thin_and_p0_passed_through [OF picky_fields(1) n, of p0_ex 4]
  note one = thin_and_p0_passed_through [OF picky_fields(1) n, of p0_ex 1]
  from four have 1: "filter is_sample_call (snd (run_mcmc picky p0_ex 3 4)) = [SampleCall p0_ex 4]"
    by blast
  from four picky_fields(2) have "run_mcmc picky p0_ex 3 4 =
      (case loop ex_two 3 0 (zeros3 (nat 3) (np_size betas_ex) (nwalkers picky) (ndim picky))
              [TqdmOpen 3, SampleCall p0_ex 4] of
         (Inl e, tr) \<Rightarrow> (Inl e, tr)
       | (Inr A, tr) \<Rightarrow> (Inr A, tr @ [PbarClose]))"
    by blast
  then have 2: "run_mcmc picky p0_ex 3 4 =
     (Inr (ex_chain, ex_logl, ex_logpi),
      [TqdmOpen 3, SampleCall p0_ex 4,
       Next, SetItem Chain 0, SetItem Logl 0, SetItem Logpi 0, PbarUpdate 1,
       Next, SetItem Chain 1, SetItem Logl 1, SetItem Logpi 1, PbarUpdate 1,
       Next, PbarClose])"
    unfolding loop_ex_two_picky by simp
  have "betas (stub ex_two) = betas picky \<and> nwalkers (stub ex_two) = nwalkers picky \<and>
     ndim (stub ex_two) = ndim picky \<and> sample (stub ex_two) p0_ex 4 = sample picky p0_ex 4"
    by (simp add: picky_def stub_def p0_ex_def)
  with four have 3: "run_mcmc (stub ex_two) p0_ex 3 4 = run_mcmc picky p0_ex 3 4" by blast
  from one picky_fields(3) have 4: "run_mcmc picky p0_ex 3 1 =
     (Inl (Other ''unexpected arguments''), [TqdmOpen 3, SampleCall p0_ex 1])"
    by blast
  from 1 2 3 4 picky_fields(2,3) show ?thesis by blast
qed

text \<open>
  C10. A sampler without betas cannot be used: the run ends in \<open>AttributeError\<close> before
  anything else happens. The ladder size the sampler declares is never read: changing
  it changes nothing. The temperature axis of each returned array is the number of
  elements of betas.
\<close>

theorem ntemps_is_size_of_betas:
  "(betas s = None \<longrightarrow> run_mcmc s p0 nsteps thin = (Inl AttributeError, [])) \<and>
   run_mcmc (s\<lparr>ntemps_attr := k\<rparr>) p0 nsteps thin = run_mcmc s p0 nsteps thin \<and>
   (\<forall>b chain logl logpi tr.
      betas s = Some b \<and> run_mcmc s p0 nsteps thin = (Inr (chain, logl, logpi), tr) \<longrightarrow>
      shape chain ! 1 = np_size b \<and> shape logl ! 1 = np_size b \<and>
      shape logpi ! 1 = np_size b)"
proof (intro conjI allI impI)
  assume "betas s = None"
  then show "run_mcmc s p0 nsteps thin = (Inl AttributeError, [])"
    by (rule run_mcmc_no_betas)
next
  show "run_mcmc (s\<lparr>ntemps_attr := k\<rparr>) p0 nsteps thin = run_mcmc s p0 nsteps thin"
    by (rule run_mcmc_cong) simp_all
next
  fix b chain logl logpi tr
  assume a: "betas s = Some b \<and> run_mcmc s p0 nsteps thin = (Inr (chain, logl, logpi), tr)"
  then have "run_mcmc s p0 nsteps thin = (Inr (chain, logl, logpi), tr)" by simp
  then obtain b' g tr' where b': "betas s = Some b'"
    and l: "loop g nsteps 0 (zeros3 (nat nsteps) (np_size b') (nwalkers s) (ndim s))
       [TqdmOpen nsteps, SampleCall p0 thin] = (Inr (chain, logl, logpi), tr')"
    by (rule run_mcmc_returns)
  from a b' have "b' = b" by simp
  with loop_shapes [OF l]
  have sh: "shape chain ! 1 = np_size b \<and> shape logl ! 1 = np_size b \<and>
      shape logpi ! 1 = np_size b"
    by (simp add: shapes_def zeros3_def)
  from sh show "shape chain ! 1 = np_size b" by simp
  from sh show "shape logl ! 1 = np_size b" by simp
  from sh show "shape logpi ! 1 = np_size b" by simp
qed

theorem ntemps_is_size_of_betas_witness:
  "run_mcmc ((stub ex_two)\<lparr>betas := None\<rparr>) p0_ex 3 1 = (Inl AttributeError, []) \<and>
   ntemps_attr (stub ex_two) = 7 \<and> np_size betas_ex = 2 \<and>
   run_mcmc ((stub ex_two)\<lparr>ntemps_attr := 2\<rparr>) p0_ex 3 1 = run_mcmc (stub ex_two) p0_ex 3 1 \<and>
   fst (run_mcmc (stub ex_two) p0_ex 3 1) = Inr (ex_chain, ex_logl, ex_logpi) \<and>
   shape ex_chain ! 1 = 2 \<and> shape ex_logl ! 1 = 2 \<and> shape ex_logpi ! 1 = 2"
proof -
  have n: "betas ((stub ex_two)\<lparr>betas := None\<rparr>) = None" by simp
  have b: "betas (stub ex_two) = Some betas_ex" by (simp add: stub_fields)
  from ntemps_is_size_of_betas [of "(stub ex_two)\<lparr>betas := None\<rparr>" p0_ex 3 1] n
  have 1: "run_mcmc ((stub ex_two)\<lparr>betas := None\<rparr>) p0_ex 3 1 = (Inl AttributeError, [])"
    by blast
  from ntemps_is_size_of_betas [of "stub ex_two" p0_ex 3 1 2] b run_ex_two
  have 2: "run_mcmc ((stub ex_two)\<lparr>ntemps_attr := 2\<rparr>) p0_ex 3 1 = run_mcmc (stub ex_two) p0_ex 3 1"
    and 3: "shape ex_chain ! 1 = np_size betas_ex \<and> shape ex_logl ! 1 = np_size betas_ex \<and>
      shape ex_logpi ! 1 = np_size betas_ex"
    by blast+
  have 4: "ntemps_attr (stub ex_two) = 7" by (simp add: stub_def)
  from 1 2 3 4 run_ex_two show ?thesis by (simp add: stub_fields)
qed

end
